theory Spec2Isabelle
  imports Main "HOL-Library.Word" "HOL-Library.AList"
begin

text \<open>
  A shallow embedding of the log-structured key-value store (package \<open>datastore\<close>:
  \<open>entry.go\<close>, \<open>db.go\<close>) and of the load balancer's backend selector
  (\<open>cmd/lb/balancer.go\<close>), with the properties of the specification stated and settled
  against it.

  Conventions of the model.
  \<^item> A Go \<open>string\<close> or \<open>[]byte\<close> is a list of 8-bit characters; \<open>uint32\<close> is
    \<open>32 word\<close>, so the conversions of \<open>Encode\<close> truncate and the sums of \<open>Decode\<close>
    wrap around as in the source.
  \<^item> Every slice handed to \<open>Decode\<close> comes from \<open>make\<close> with its exact length, so
    capacity equals length and a slice expression panics exactly when its bounds leave the
    length. A runtime panic is the value \<open>RuntimePanic\<close>: it is not an error the source
    returns, it unwinds the calling goroutine.
  \<^item> The database directory is an association list from file names (relative to
    \<open>db.dir\<close>) to contents. The file system never fails by itself: the only I/O errors
    are a missing file, a negative seek offset and reads that hit the end of a file.
  \<^item> All \<open>Put\<close> calls go through the single executor goroutine, one at a time; the model
    runs one iteration of \<open>startPutRoutine\<close> per \<open>Put\<close>. Locks and channels are not
    modelled.
  \<^item> \<open>crypto/sha1\<close> and \<open>fmt.Sprintf("%x")\<close> are modelled in full (\<open>sha1_sum\<close>,
    \<open>hex\<close>), following FIPS 180-4.
\<close>

unbundle bit_operations_syntax

section \<open>Bytes and fixed-width integers\<close>

text \<open>
  \<open>error\<close> lists the failures the code can end in: the sentinel errors of \<open>io\<close> and of
  the package, the two \<open>os\<close> errors the model can raise (a missing file, a negative seek
  offset), and \<open>RuntimePanic\<close> for an out-of-range index or slice expression.
\<close>

type_synonym bytes = string
type_synonym u32 = "32 word"

datatype error = EOF | ErrUnexpectedEOF | ErrNotFound | ErrHashMismatch | ErrNotExist | ErrInvalid
  | RuntimePanic

text \<open>
  Slices. \<open>make_slice n\<close> is \<open>make([]byte, n)\<close>; \<open>copy_at off src dst\<close> is
  \<open>copy(dst[off:], src)\<close>, which copies \<open>min(len(dst) - off, len(src))\<close> bytes;
  \<open>slice lo hi s\<close> is \<open>s[lo:hi]\<close> and \<open>slice_from lo s\<close> is \<open>s[lo:]\<close>, both
  panicking outside \<open>0 <= lo <= hi <= len(s)\<close>.
  \<open>PutUint32\<close> and \<open>Uint32\<close> are those of \<open>binary.LittleEndian\<close>; \<open>Uint32\<close>
  panics on fewer than four bytes (\<open>Uint32_checked\<close>).
\<close>

definition make_slice :: "nat \<Rightarrow> bytes" where
  "make_slice n = replicate n (CHR 0x00)"

definition copy_at :: "nat \<Rightarrow> bytes \<Rightarrow> bytes \<Rightarrow> bytes" where
  "copy_at off src dst =
     (let n = min (length dst - off) (length src)
      in take off dst @ take n src @ drop (off + n) dst)"

definition slice :: "nat \<Rightarrow> nat \<Rightarrow> bytes \<Rightarrow> error + bytes" where
  "slice lo hi s = (if lo \<le> hi \<and> hi \<le> length s then Inr (take (hi - lo) (drop lo s))
                    else Inl RuntimePanic)"

definition slice_from :: "nat \<Rightarrow> bytes \<Rightarrow> error + bytes" where
  "slice_from lo s = slice lo (length s) s"

definition PutUint32 :: "u32 \<Rightarrow> bytes" where
  "PutUint32 v = (let n = unat v in
     [char_of n, char_of (n div 256), char_of (n div 65536), char_of (n div 16777216)])"

definition Uint32 :: "bytes \<Rightarrow> u32" where
  "Uint32 b = word_of_nat (of_char (b ! 0) + 256 * of_char (b ! 1)
                + 65536 * of_char (b ! 2) + 16777216 * of_char (b ! 3))"

definition Uint32_checked :: "bytes \<Rightarrow> error + u32" where
  "Uint32_checked b = (if length b < 4 then Inl RuntimePanic else Inr (Uint32 b))"

definition bind_err :: "error + 'a \<Rightarrow> ('a \<Rightarrow> error + 'b) \<Rightarrow> error + 'b" where
  "bind_err r f = (case r of Inl e \<Rightarrow> Inl e | Inr x \<Rightarrow> f x)"

section \<open>SHA-1 and hexadecimal printing\<close>

definition PutUint32BE :: "u32 \<Rightarrow> bytes" where
  "PutUint32BE v = rev (PutUint32 v)"

definition Uint32BE :: "bytes \<Rightarrow> u32" where
  "Uint32BE b = Uint32 (rev (take 4 b))"

definition PutUint64BE :: "nat \<Rightarrow> bytes" where
  "PutUint64BE n = map (\<lambda>i. char_of (n div 256 ^ (7 - i))) [0..<8]"

definition sha1_pad :: "bytes \<Rightarrow> bytes" where
  "sha1_pad m = m @ [CHR 0x80]
      @ replicate ((119 - length m mod 64) mod 64) (CHR 0x00)
      @ PutUint64BE (8 * length m)"

fun sha1_schedule :: "nat \<Rightarrow> u32 list \<Rightarrow> u32 list" where
  "sha1_schedule 0 w = w"
| "sha1_schedule (Suc n) w =
     (let t = length w in
      sha1_schedule n
        (w @ [word_rotl 1 (w ! (t - 3) XOR w ! (t - 8) XOR w ! (t - 14) XOR w ! (t - 16))]))"

type_synonym sha1_state = "u32 \<times> u32 \<times> u32 \<times> u32 \<times> u32"

definition sha1_round :: "u32 list \<Rightarrow> nat \<Rightarrow> sha1_state \<Rightarrow> sha1_state" where
  "sha1_round w t s = (case s of (a, b, c, d, e) \<Rightarrow>
     (let f = (if t < 20 then (b AND c) OR (NOT b AND d)
               else if t < 40 then b XOR c XOR d
               else if t < 60 then (b AND c) OR (b AND d) OR (c AND d)
               else b XOR c XOR d);
          k = (if t < 20 then 0x5A827999
               else if t < 40 then 0x6ED9EBA1
               else if t < 60 then 0x8F1BBCDC
               else 0xCA62C1D6);
          temp = word_rotl 5 a + f + e + k + w ! t
      in (temp, a, word_rotl 30 b, c, d)))"

definition sha1_block :: "bytes \<Rightarrow> sha1_state \<Rightarrow> sha1_state" where
  "sha1_block blk h = (case h of (h0, h1, h2, h3, h4) \<Rightarrow>
     (let w = sha1_schedule 64 (map (\<lambda>i. Uint32BE (drop (4 * i) blk)) [0..<16]) in
      case fold (sha1_round w) [0..<80] h of (a, b, c, d, e) \<Rightarrow>
        (h0 + a, h1 + b, h2 + c, h3 + d, h4 + e)))"

definition sha1_sum :: "bytes \<Rightarrow> bytes" where
  "sha1_sum m = (let p = sha1_pad m in
     case fold (\<lambda>i. sha1_block (take 64 (drop (64 * i) p))) [0..<length p div 64]
            (0x67452301, 0xEFCDAB89, 0x98BADCFE, 0x10325476, 0xC3D2E1F0)
     of (h0, h1, h2, h3, h4) \<Rightarrow> concat (map PutUint32BE [h0, h1, h2, h3, h4]))"

definition hexdigit :: "nat \<Rightarrow> char" where
  "hexdigit n = ''0123456789abcdef'' ! n"

definition hex :: "bytes \<Rightarrow> bytes" where
  "hex b = concat (map (\<lambda>c. [hexdigit (of_char c div 16), hexdigit (of_char c mod 16)]) b)"

definition calculateHash :: "bytes \<Rightarrow> bytes" where
  "calculateHash v = hex (sha1_sum v)"

section \<open>Entry codec (datastore/entry.go)\<close>

text \<open>
  \<open>Encode\<close> (entry.go, lines 14 to 28) has a pointer receiver and stores the hash in it:
  the model returns the bytes and the updated entry. The three \<open>uint32(...)\<close>
  conversions are \<open>word_of_nat\<close>. \<open>Decode\<close> (lines 34 to 49) computes \<open>kl+8\<close>,
  \<open>kl+12\<close> and \<open>kl+12+vl\<close> in \<open>uint32\<close>, so the sums are those of \<open>32 word\<close>;
  each slice expression and each \<open>make\<close> of a negative length is a possible panic, in
  the order of the source. \<open>readNext\<close> (db.go, lines 359 to 370) takes the bytes left in
  the reader and returns the outcome with the bytes left afterwards: \<open>Peek(4)\<close> fails
  with \<open>io.EOF\<close> on fewer than four bytes and consumes nothing, and \<open>io.ReadFull\<close>
  then reads \<open>size\<close> bytes starting at the size prefix itself, failing with
  \<open>io.ErrUnexpectedEOF\<close> when fewer are left.
\<close>

record Entry =
  key :: bytes
  val :: bytes
  hash :: bytes

definition Entry_calculateHash :: "Entry \<Rightarrow> bytes" where
  "Entry_calculateHash e = hex (sha1_sum (val e))"

definition Encode :: "Entry \<Rightarrow> bytes \<times> Entry" where
  "Encode e =
     (let kl = length (key e);
          vl = length (val e);
          h = Entry_calculateHash e;
          hl = length h;
          sz = kl + vl + hl + 12;
          res0 = make_slice sz;
          res1 = copy_at 0 (PutUint32 (word_of_nat sz)) res0;
          res2 = copy_at 4 (PutUint32 (word_of_nat kl)) res1;
          res3 = copy_at 8 (key e) res2;
          res4 = copy_at (kl + 8) (PutUint32 (word_of_nat vl)) res3;
          res5 = copy_at (kl + 12) (val e) res4;
          res6 = copy_at (kl + 12 + vl) h res5
      in (res6, e\<lparr>hash := h\<rparr>))"

definition getLength :: "bytes \<Rightarrow> bytes \<Rightarrow> int" where
  "getLength k v = int (length k + length v + 12)"

definition GetLength :: "Entry \<Rightarrow> int" where
  "GetLength e = getLength (key e) (val e) + int (length (hash e))"

definition Decode :: "bytes \<Rightarrow> error + Entry" where
  "Decode input =
     bind_err (slice_from 4 input) (\<lambda>s4.
     bind_err (Uint32_checked s4) (\<lambda>kl.
     bind_err (slice 8 (unat (kl + 8)) input) (\<lambda>ks.
     let keyBuf = copy_at 0 ks (make_slice (unat kl)) in
     bind_err (slice_from (unat (kl + 8)) input) (\<lambda>sv.
     bind_err (Uint32_checked sv) (\<lambda>vl.
     bind_err (slice (unat (kl + 12)) (unat (kl + 12 + vl)) input) (\<lambda>vs.
     let valBuf = copy_at 0 vs (make_slice (unat vl));
         hl = int (length input) - int (unat (kl + 12 + vl)) in
     if hl < 0 then Inl RuntimePanic else
     bind_err (slice_from (unat (kl + 12 + vl)) input) (\<lambda>hs.
     let hashBuf = copy_at 0 hs (make_slice (nat hl)) in
     Inr \<lparr>key = keyBuf, val = valBuf, hash = hashBuf\<rparr>)))))))"

definition readNext :: "bytes \<Rightarrow> (error + bytes) \<times> bytes" where
  "readNext r =
     (if length r < 4 then (Inl EOF, r)
      else let sz = unat (Uint32 (take 4 r)) in
        if length r < sz then (Inl ErrUnexpectedEOF, [])
        else (Inr (take sz r), drop sz r))"


text \<open>
  The bytes \<open>Encode\<close> produces for key \<open>k\<close>, value \<open>v\<close> and hash \<open>h\<close>, written
  as a concatenation.
\<close>

definition frame :: "bytes \<Rightarrow> bytes \<Rightarrow> bytes \<Rightarrow> bytes" where
  "frame k v h = PutUint32 (word_of_nat (length k + length v + length h + 12))
      @ PutUint32 (word_of_nat (length k)) @ k
      @ PutUint32 (word_of_nat (length v)) @ v @ h"

section \<open>Files of the database directory\<close>

text \<open>
  The files of \<open>db.dir\<close>, by name. \<open>OpenFile_create\<close> is \<open>os.OpenFile\<close> with
  \<open>O_CREATE|O_APPEND\<close> (an existing file is kept as it is), \<open>file_size\<close> is
  \<open>Seek(0, io.SeekEnd)\<close>, \<open>Write\<close> appends (all handles are opened with
  \<open>O_APPEND\<close>), \<open>Remove\<close> is \<open>os.Remove\<close>.
\<close>

type_synonym directory = "(string \<times> bytes) list"

definition ReadDir :: "directory \<Rightarrow> string list" where
  "ReadDir d = map fst d"

definition OpenFile_create :: "string \<Rightarrow> directory \<Rightarrow> directory" where
  "OpenFile_create p d = (case map_of d p of None \<Rightarrow> d @ [(p, [])] | Some c \<Rightarrow> d)"

definition file_size :: "string \<Rightarrow> directory \<Rightarrow> nat" where
  "file_size p d = (case map_of d p of None \<Rightarrow> 0 | Some c \<Rightarrow> length c)"

definition Write :: "string \<Rightarrow> bytes \<Rightarrow> directory \<Rightarrow> directory" where
  "Write p data d = (case map_of d p of None \<Rightarrow> d | Some c \<Rightarrow> AList.update p (c @ data) d)"

definition Remove :: "string \<Rightarrow> directory \<Rightarrow> directory" where
  "Remove p d = AList.delete p d"

section \<open>File names (strings, strconv, fmt)\<close>

definition outFileName :: string where
  "outFileName = ''current-data''"

definition HasPrefix :: "string \<Rightarrow> string \<Rightarrow> bool" where
  "HasPrefix s p = (take (length p) s = p)"

definition TrimPrefix :: "string \<Rightarrow> string \<Rightarrow> string" where
  "TrimPrefix s p = (if HasPrefix s p then drop (length p) s else s)"

text \<open>
  \<open>Atoi\<close> is \<open>strconv.Atoi\<close> with the error dropped, as at its three call sites in
  \<open>recoverAll\<close>: on a syntax error the number is 0. The numbers of the model are
  unbounded, so the range error of a suffix of 19 digits or more is not modelled.
  \<open>format_int\<close> is the \<open>%d\<close> of \<open>fmt.Sprintf\<close>.
\<close>

definition is_digit :: "char \<Rightarrow> bool" where
  "is_digit c = (48 \<le> (of_char c :: nat) \<and> (of_char c :: nat) \<le> 57)"

fun parse_digits :: "string \<Rightarrow> nat \<Rightarrow> nat option" where
  "parse_digits [] acc = Some acc"
| "parse_digits (c # cs) acc =
     (if is_digit c then parse_digits cs (10 * acc + (of_char c - 48)) else None)"

definition ParseUint :: "string \<Rightarrow> nat option" where
  "ParseUint s = (if s = [] then None else parse_digits s 0)"

definition Atoi :: "string \<Rightarrow> int" where
  "Atoi s = (case s of
       [] \<Rightarrow> 0
     | c # cs \<Rightarrow>
         if c = CHR ''-'' then (case ParseUint cs of None \<Rightarrow> 0 | Some n \<Rightarrow> - int n)
         else if c = CHR ''+'' then (case ParseUint cs of None \<Rightarrow> 0 | Some n \<Rightarrow> int n)
         else (case ParseUint s of None \<Rightarrow> 0 | Some n \<Rightarrow> int n))"

function format_nat :: "nat \<Rightarrow> string" where
  "format_nat n = (if n < 10 then [char_of (48 + n)]
                   else format_nat (n div 10) @ [char_of (48 + n mod 10)])"
  by pat_completeness auto
termination
  by (relation "measure id") auto

declare format_nat.simps [simp del]

definition format_int :: "int \<Rightarrow> string" where
  "format_int i = (if i < 0 then CHR ''-'' # format_nat (nat (- i)) else format_nat (nat i))"

section \<open>Database engine (datastore/db.go)\<close>

text \<open>
  The field \<open>out\<close> of the model is the name of the file the handle \<open>db.out\<close> is open
  on (\<open>None\<close> for the nil handle). \<open>dir\<close>, the channel and the locks are left out:
  file names are relative to \<open>db.dir\<close>.
\<close>

type_synonym hashIndex = "bytes \<rightharpoonup> int"

record Segment =
  index :: hashIndex
  filePath :: string

record KeyPosition =
  segment :: Segment
  position :: int

record Db =
  out :: "string option"
  segmentSize :: int
  lastSegmentIndex :: int
  segments :: "Segment list"

type_synonym state = "Db \<times> directory"

text \<open>
  \<open>createSegment\<close> (lines 128 to 148), \<open>setKey\<close> (lines 276 to 280) and one iteration
  of the loop of \<open>startPutRoutine\<close> (lines 101 to 126) for the operation \<open>Put\<close>
  sends (lines 310 to 322). A nil handle or an empty roster where the source dereferences
  it is a panic.
\<close>

definition generateNewFileName :: "Db \<Rightarrow> string" where
  "generateNewFileName db = outFileName @ format_int (lastSegmentIndex db)"

definition createSegment :: "state \<Rightarrow> state" where
  "createSegment st = (case st of (db, d) \<Rightarrow>
     (let db1 = db\<lparr>lastSegmentIndex := lastSegmentIndex db + 1\<rparr>;
          filePath = generateNewFileName db1;
          d1 = OpenFile_create filePath d;
          newSegment = \<lparr>index = Map.empty, filePath = filePath\<rparr>
      in (db1\<lparr>out := Some filePath, segments := segments db1 @ [newSegment]\<rparr>, d1)))"

definition getLastSegment :: "Db \<Rightarrow> Segment option" where
  "getLastSegment db = (if length (segments db) = 0 then None else Some (last (segments db)))"

definition setKey :: "bytes \<Rightarrow> int \<Rightarrow> state \<Rightarrow> error + state" where
  "setKey k n st = (case st of (db, d) \<Rightarrow>
     (case out db of
        None \<Rightarrow> Inl RuntimePanic
      | Some f \<Rightarrow>
          (let currentOffset = int (file_size f d);
               startPosition = currentOffset - n
           in case getLastSegment db of
                None \<Rightarrow> Inl RuntimePanic
              | Some s \<Rightarrow>
                  Inr (db\<lparr>segments := butlast (segments db)
                         @ [s\<lparr>index := (index s)(k \<mapsto> startPosition)\<rparr>]\<rparr>, d))))"

definition startPutRoutine :: "Entry \<Rightarrow> state \<Rightarrow> error option \<times> state" where
  "startPutRoutine entry st = (case st of (db, d) \<Rightarrow>
     (case out db of
        None \<Rightarrow> (Some RuntimePanic, st)
      | Some f \<Rightarrow>
          (let currentSize = int (file_size f d);
               st1 = (if currentSize + GetLength entry > segmentSize db
                      then createSegment st else st)
           in case st1 of (db1, d1) \<Rightarrow>
             (case out db1 of
                None \<Rightarrow> (Some RuntimePanic, st1)
              | Some f1 \<Rightarrow>
                  (let encoded = fst (Encode entry);
                       n = int (length encoded);
                       d2 = Write f1 encoded d1
                   in case setKey (key entry) n (db1, d2) of
                        Inl e \<Rightarrow> (Some e, (db1, d2))
                      | Inr st2 \<Rightarrow> (None, st2))))))"

definition Put :: "bytes \<Rightarrow> bytes \<Rightarrow> state \<Rightarrow> error option \<times> state" where
  "Put k v st = startPutRoutine \<lparr>key = k, val = v, hash = calculateHash v\<rparr> st"

text \<open>
  \<open>getPos\<close> (lines 282 to 293) ranges over the roster from its last segment to its
  first; \<open>getFromSegment\<close> (lines 331 to 351) opens the file, seeks and reads one
  frame; \<open>Get\<close> (lines 295 to 308) compares the recomputed digest with the stored one.
\<close>

fun getPos_from :: "Segment list \<Rightarrow> bytes \<Rightarrow> error + KeyPosition" where
  "getPos_from [] k = Inl ErrNotFound"
| "getPos_from (s # ss) k =
     (case index s k of
        Some pos \<Rightarrow> Inr \<lparr>segment = s, position = pos\<rparr>
      | None \<Rightarrow> getPos_from ss k)"

definition getPos :: "Db \<Rightarrow> bytes \<Rightarrow> error + KeyPosition" where
  "getPos db k = getPos_from (rev (segments db)) k"

definition getFromSegment :: "Segment \<Rightarrow> int \<Rightarrow> directory \<Rightarrow> error + Entry" where
  "getFromSegment s pos d =
     (case map_of d (filePath s) of
        None \<Rightarrow> Inl ErrNotExist
      | Some content \<Rightarrow>
          if pos < 0 then Inl ErrInvalid
          else (case readNext (drop (nat pos) content) of
                  (Inl e, r) \<Rightarrow> Inl e
                | (Inr data, r) \<Rightarrow> Decode data))"

definition Get :: "bytes \<Rightarrow> state \<Rightarrow> error + bytes" where
  "Get k st = (case st of (db, d) \<Rightarrow>
     bind_err (getPos db k) (\<lambda>keyPos.
     bind_err (getFromSegment (segment keyPos) (position keyPos) d) (\<lambda>entry.
     if Entry_calculateHash entry \<noteq> hash entry then Inl ErrHashMismatch
     else Inr (val entry))))"

text \<open>
  \<open>Compact\<close> (lines 154 to 208). \<open>keysToKeep_of\<close> is the loop that fills
  \<open>keysToKeep\<close>, over the sealed segments from the newest to the oldest; a key already
  present is kept. The order in which Go ranges over the map \<open>keysToKeep\<close> is not
  specified: it is the parameter \<open>order\<close>, and \<open>compact_write\<close> is the loop over it
  (a read error skips the key, a panic of \<open>Decode\<close> ends the run). The new roster is
  the new segment followed by the active one.
\<close>

fun keysToKeep_of :: "Segment list \<Rightarrow> (bytes \<rightharpoonup> KeyPosition) \<Rightarrow> (bytes \<rightharpoonup> KeyPosition)" where
  "keysToKeep_of [] keep = keep"
| "keysToKeep_of (s # ss) keep =
     keysToKeep_of ss (\<lambda>k. case keep k of
         Some kp \<Rightarrow> Some kp
       | None \<Rightarrow> (case index s k of
                     None \<Rightarrow> None
                   | Some pos \<Rightarrow> Some \<lparr>segment = s, position = pos\<rparr>))"

fun compact_write ::
  "bytes list \<Rightarrow> (bytes \<rightharpoonup> KeyPosition) \<Rightarrow> string \<Rightarrow> directory \<times> hashIndex \<times> int
     \<Rightarrow> error + directory \<times> hashIndex \<times> int" where
  "compact_write [] keep path acc = Inr acc"
| "compact_write (k # ks) keep path (d, idx, offset) =
     (case keep k of
        None \<Rightarrow> compact_write ks keep path (d, idx, offset)
      | Some keyPos \<Rightarrow>
          (case getFromSegment (segment keyPos) (position keyPos) d of
             Inl e \<Rightarrow> if e = RuntimePanic then Inl RuntimePanic
                      else compact_write ks keep path (d, idx, offset)
           | Inr entry \<Rightarrow>
               (let encoded = fst (Encode (entry\<lparr>key := k\<rparr>));
                    d1 = Write path encoded d
                in compact_write ks keep path
                     (d1, idx(k \<mapsto> offset), offset + int (length encoded)))))"

definition Compact :: "bytes list \<Rightarrow> state \<Rightarrow> error option \<times> state" where
  "Compact order st = (case st of (db, d) \<Rightarrow>
     if length (segments db) < 2 then (None, st)
     else
       (let segmentsToCompact = butlast (segments db);
            activeSegment = last (segments db);
            db1 = db\<lparr>lastSegmentIndex := lastSegmentIndex db + 1\<rparr>;
            newFilePath = generateNewFileName db1;
            d1 = OpenFile_create newFilePath d;
            keysToKeep = keysToKeep_of (rev segmentsToCompact) Map.empty
        in case compact_write order keysToKeep newFilePath (d1, Map.empty, 0) of
             Inl e \<Rightarrow> (Some e, (db1, d1))
           | Inr (d2, newIndex, offset) \<Rightarrow>
               (let newSegment = \<lparr>index = newIndex, filePath = newFilePath\<rparr>;
                    db2 = db1\<lparr>segments := [newSegment, activeSegment]\<rparr>;
                    d3 = fold Remove (map filePath segmentsToCompact) d2
                in (None, (db2, d3)))))"

text \<open>
  \<open>recoverSegment\<close> (lines 251 to 274): the \<open>for\<close> loop has no bound in the
  source, so it is a partial function into \<open>option\<close>, and \<open>None\<close> would be a scan
  that never ends. \<open>recoverAll\<close> (lines 210 to 249) keeps the names with the prefix,
  sorts them by \<open>segment_number\<close>, and recovers them in that order, raising
  \<open>lastSegmentIndex\<close> to the largest number. \<open>sort.Slice\<close> is not stable; the
  stable \<open>sort_key\<close> agrees with it whenever the numbers are pairwise different, as
  they are for files the database named itself. \<open>NewDb\<close> is lines 55 to 88, \<open>Close\<close>
  leaves the directory.
\<close>

partial_function (option) recoverSegment_scan ::
  "bytes \<Rightarrow> hashIndex \<Rightarrow> int \<Rightarrow> (error option \<times> hashIndex) option" where
  "recoverSegment_scan r idx offset =
     (case readNext r of
        (Inl e, r1) \<Rightarrow> if e = EOF then Some (None, idx) else Some (Some e, idx)
      | (Inr data, r1) \<Rightarrow>
          (case Decode data of
             Inl e \<Rightarrow> Some (Some e, idx)
           | Inr e \<Rightarrow> recoverSegment_scan r1 (idx(key e \<mapsto> offset)) (offset + int (length data))))"

declare recoverSegment_scan.simps [code]

definition recoverSegment :: "Segment \<Rightarrow> directory \<Rightarrow> (error option \<times> Segment) option" where
  "recoverSegment s d =
     (case map_of d (filePath s) of
        None \<Rightarrow> Some (Some ErrNotExist, s)
      | Some content \<Rightarrow>
          (case recoverSegment_scan content (index s) 0 of
             None \<Rightarrow> None
           | Some (err, idx) \<Rightarrow> Some (err, s\<lparr>index := idx\<rparr>)))"

definition segment_number :: "string \<Rightarrow> int" where
  "segment_number fileName = Atoi (TrimPrefix fileName outFileName)"

fun recoverAll_files :: "string list \<Rightarrow> state \<Rightarrow> (error option \<times> Db) option" where
  "recoverAll_files [] st = Some (None, fst st)"
| "recoverAll_files (fileName # rest) st = (case st of (db, d) \<Rightarrow>
     (case recoverSegment \<lparr>index = Map.empty, filePath = fileName\<rparr> d of
        None \<Rightarrow> None
      | Some (err, seg) \<Rightarrow>
          if err \<noteq> None \<and> err \<noteq> Some EOF then Some (err, db)
          else
            (let db1 = db\<lparr>segments := segments db @ [seg]\<rparr>;
                 i = segment_number fileName;
                 db2 = (if i > lastSegmentIndex db1 then db1\<lparr>lastSegmentIndex := i\<rparr> else db1)
             in recoverAll_files rest (db2, d))))"

definition recoverAll :: "state \<Rightarrow> (error option \<times> Db) option" where
  "recoverAll st = (case st of (db, d) \<Rightarrow>
     (let segmentFiles = filter (\<lambda>name. HasPrefix name outFileName) (ReadDir d);
          sorted = sort_key segment_number segmentFiles
      in recoverAll_files sorted st))"

definition NewDb :: "directory \<Rightarrow> int \<Rightarrow> (error + state) option" where
  "NewDb d sz =
     (let db = \<lparr>out = None, segmentSize = sz, lastSegmentIndex = - 1, segments = []\<rparr>
      in case recoverAll (db, d) of
           None \<Rightarrow> None
         | Some (Some e, db1) \<Rightarrow> Some (Inl e)
         | Some (None, db1) \<Rightarrow>
             if length (segments db1) = 0 then Some (Inr (createSegment (db1, d)))
             else (case getLastSegment db1 of
                     None \<Rightarrow> Some (Inl RuntimePanic)
                   | Some lastSegment \<Rightarrow>
                       (case map_of d (filePath lastSegment) of
                          None \<Rightarrow> Some (Inl ErrNotExist)
                        | Some c \<Rightarrow> Some (Inr (db1\<lparr>out := Some (filePath lastSegment)\<rparr>, d)))))"

definition Close :: "state \<Rightarrow> directory" where
  "Close st = snd st"

section \<open>Histories and on-disk records\<close>

text \<open>A sequence of \<open>Put\<close> calls, each acknowledged with \<open>nil\<close> before the next is sent.\<close>

fun puts :: "(bytes \<times> bytes) list \<Rightarrow> state \<Rightarrow> error option \<times> state" where
  "puts [] st = (None, st)"
| "puts ((k, v) # kvs) st =
     (case Put k v st of
        (None, st1) \<Rightarrow> puts kvs st1
      | (Some e, st1) \<Rightarrow> (Some e, st1))"

text \<open>The value most recently put for a key by a sequence of puts.\<close>

definition latest :: "(bytes \<times> bytes) list \<Rightarrow> bytes \<rightharpoonup> bytes" where
  "latest kvs = map_of (rev kvs)"

text \<open>
  \<open>stored_at d path pos k v h\<close>: the file \<open>path\<close> holds, at byte offset \<open>pos\<close>, a
  well-formed frame with key \<open>k\<close>, value \<open>v\<close> and hash field \<open>h\<close>.
\<close>

definition stored_at :: "directory \<Rightarrow> string \<Rightarrow> int \<Rightarrow> bytes \<Rightarrow> bytes \<Rightarrow> bytes \<Rightarrow> bool" where
  "stored_at d path pos k v h =
     (0 \<le> pos \<and> length k + length v + length h + 12 < 4294967296 \<and>
      (case map_of d path of
         None \<Rightarrow> False
       | Some c \<Rightarrow> take (length k + length v + length h + 12) (drop (nat pos) c) = frame k v h))"

text \<open>
  The state of an open database whose active file is the file of its last segment.
\<close>

definition db_open :: "state \<Rightarrow> bool" where
  "db_open st = (case st of (db, d) \<Rightarrow>
     segments db \<noteq> [] \<and> out db = Some (filePath (last (segments db)))
     \<and> map_of d (filePath (last (segments db))) \<noteq> None)"

text \<open>
  Invariants of a database opened on a directory of its own. \<open>roster_ok\<close>: the
  directory holds exactly the files of the segments, each once, and no segment file carries
  a number above \<open>lastSegmentIndex\<close>. \<open>index_ok\<close>: every index entry points at a
  well-formed frame for its key. \<open>agrees st m\<close>: the lookup of every key ends at a frame
  holding the value that \<open>m\<close> gives for the key, and misses exactly the keys \<open>m\<close> lacks.
\<close>

definition roster_ok :: "state \<Rightarrow> bool" where
  "roster_ok st = (case st of (db, d) \<Rightarrow>
     db_open st \<and> distinct (map filePath (segments db)) \<and> distinct (map fst d)
     \<and> set (map fst d) = set (map filePath (segments db))
     \<and> (\<forall>s \<in> set (segments db). segment_number (filePath s) \<le> lastSegmentIndex db))"

definition index_ok :: "state \<Rightarrow> bool" where
  "index_ok st = (case st of (db, d) \<Rightarrow>
     \<forall>s \<in> set (segments db). \<forall>k pos. index s k = Some pos \<longrightarrow>
        (\<exists>v. stored_at d (filePath s) pos k v (calculateHash v)))"

definition agrees :: "state \<Rightarrow> (bytes \<rightharpoonup> bytes) \<Rightarrow> bool" where
  "agrees st m = (\<forall>k. case getPos (fst st) k of
       Inl e \<Rightarrow> m k = None
     | Inr kp \<Rightarrow>
         (case m k of
            None \<Rightarrow> False
          | Some v \<Rightarrow> stored_at (snd st) (filePath (segment kp)) (position kp) k v
                        (calculateHash v)))"

text \<open>
  The states a database passes through: opened on an empty directory, then any sequence of
  \<open>Put\<close>, of \<open>Compact\<close> runs that return \<open>nil\<close> (whatever the order in which the run
  visits the keys), and of \<open>Close\<close> followed by \<open>NewDb\<close> on the same directory.
  \<open>db_inv\<close> is what all of them satisfy: the roster names distinct files of the
  directory, the active file among them, and no file of the directory with the segment
  prefix carries a number above \<open>lastSegmentIndex\<close>.
\<close>

definition db_inv :: "state \<Rightarrow> bool" where
  "db_inv st = (case st of (db, d) \<Rightarrow>
     db_open st \<and> distinct (map filePath (segments db)) \<and> distinct (map fst d)
     \<and> set (map filePath (segments db)) \<subseteq> set (map fst d)
     \<and> (\<forall>n \<in> set (map fst d). HasPrefix n outFileName \<longrightarrow>
           segment_number n \<le> lastSegmentIndex db))"

inductive reachable :: "state \<Rightarrow> bool" where
  opened: "NewDb [] sz = Some (Inr st) \<Longrightarrow> reachable st"
| put: "reachable st \<Longrightarrow> Put k v st = (r, st') \<Longrightarrow> reachable st'"
| compacted: "reachable st \<Longrightarrow> Compact order st = (None, st') \<Longrightarrow> reachable st'"
| reopened: "reachable st \<Longrightarrow> NewDb (Close st) sz = Some (Inr st') \<Longrightarrow> reachable st'"

text \<open>
  The invariant of the writing loop of \<open>Compact\<close>: the new file holds \<open>off\<close> bytes, the
  other files are untouched, and every entry of the new index points at a frame of the new
  file that carries the value found at the key's position in \<open>keysToKeep\<close>.
\<close>

definition compact_inv ::
  "directory \<Rightarrow> string \<Rightarrow> (bytes \<rightharpoonup> KeyPosition) \<Rightarrow> directory \<times> hashIndex \<times> int \<Rightarrow> bool" where
  "compact_inv d newf keep acc = (case acc of (dc, idx, off) \<Rightarrow>
     (\<exists>content. map_of dc newf = Some content \<and> int (length content) = off)
     \<and> (\<forall>p. p \<noteq> newf \<longrightarrow> map_of dc p = map_of d p)
     \<and> map fst dc = map fst d @ [newf]
     \<and> (\<forall>k pos. idx k = Some pos \<longrightarrow>
           (\<exists>kp v. keep k = Some kp
              \<and> stored_at d (filePath (segment kp)) (position kp) k v (calculateHash v)
              \<and> stored_at dc newf pos k v (calculateHash v))))"

text \<open>The bytes a sequence of puts appends, all frames together.\<close>

definition total_length :: "(bytes \<times> bytes) list \<Rightarrow> nat" where
  "total_length kvs = sum_list (map (\<lambda>(k, v). length k + length v + 52) kvs)"

text \<open>
  The states of a small history on a fresh directory with \<open>segmentSize = 100\<close>:
  \<open>hist_st0\<close> after \<open>NewDb\<close>, \<open>hist_st1\<close> after \<open>Put("k", "old")\<close>, \<open>hist_st2\<close> after
  \<open>Put("k", "new")\<close> (which rolls over: 56 + 56 > 100), \<open>hist_st3\<close> after \<open>Compact()\<close>,
  and \<open>hist_st4\<close> after \<open>Close()\<close> and \<open>NewDb\<close> on the same directory.
\<close>

definition hist_st0 :: state where
  "hist_st0 = (\<lparr>out = Some ''current-data0'', segmentSize = 100, lastSegmentIndex = 0,
        segments = [\<lparr>index = Map.empty, filePath = ''current-data0''\<rparr>]\<rparr>,
      [(''current-data0'', [])])"

definition hist_st1 :: state where
  "hist_st1 = (\<lparr>out = Some ''current-data0'', segmentSize = 100, lastSegmentIndex = 0,
        segments = [\<lparr>index = [''k'' \<mapsto> 0], filePath = ''current-data0''\<rparr>]\<rparr>,
      [(''current-data0'', frame ''k'' ''old'' (calculateHash ''old''))])"

definition hist_st2 :: state where
  "hist_st2 = (\<lparr>out = Some ''current-data1'', segmentSize = 100, lastSegmentIndex = 1,
        segments = [\<lparr>index = [''k'' \<mapsto> 0], filePath = ''current-data0''\<rparr>,
                    \<lparr>index = [''k'' \<mapsto> 0], filePath = ''current-data1''\<rparr>]\<rparr>,
      [(''current-data0'', frame ''k'' ''old'' (calculateHash ''old'')),
       (''current-data1'', frame ''k'' ''new'' (calculateHash ''new''))])"

definition hist_st3 :: state where
  "hist_st3 = (\<lparr>out = Some ''current-data1'', segmentSize = 100, lastSegmentIndex = 2,
        segments = [\<lparr>index = [''k'' \<mapsto> 0], filePath = ''current-data2''\<rparr>,
                    \<lparr>index = [''k'' \<mapsto> 0], filePath = ''current-data1''\<rparr>]\<rparr>,
      [(''current-data1'', frame ''k'' ''new'' (calculateHash ''new'')),
       (''current-data2'', frame ''k'' ''old'' (calculateHash ''old''))])"

definition hist_st4 :: state where
  "hist_st4 = (\<lparr>out = Some ''current-data2'', segmentSize = 100, lastSegmentIndex = 2,
        segments = [\<lparr>index = [''k'' \<mapsto> 0], filePath = ''current-data1''\<rparr>,
                    \<lparr>index = [''k'' \<mapsto> 0], filePath = ''current-data2''\<rparr>]\<rparr>,
      [(''current-data1'', frame ''k'' ''new'' (calculateHash ''new'')),
       (''current-data2'', frame ''k'' ''old'' (calculateHash ''old''))])"

section \<open>Load balancer selector (cmd/lb/balancer.go)\<close>







lemma le_bytes_sum:
  assumes "(n::nat) < 4294967296"
  shows "n mod 256 + 256 * (n div 256 mod 256) + 65536 * (n div 65536 mod 256)
     + 16777216 * (n div 16777216 mod 256) = n"
proof -
  define a where "a = n div 256"
  define b where "b = a div 256"
  define c where "c = b div 256"
  have b_eq: "b = n div 65536" unfolding b_def a_def by (simp add: div_mult2_eq[symmetric])
  have c_eq: "c = n div 16777216" unfolding c_def b_eq by (simp add: div_mult2_eq[symmetric])
  have c_small: "c < 256" unfolding c_eq using assms by simp
  have 1: "n = n mod 256 + 256 * a" unfolding a_def by simp
  have 2: "a = a mod 256 + 256 * b" unfolding b_def by simp
  have 3: "b = b mod 256 + 256 * c" unfolding c_def by simp
  have 4: "c mod 256 = c" using c_small by simp
  have "n mod 256 + 256 * (a mod 256) + 65536 * (b mod 256) + 16777216 * (c mod 256) = n"
    using 1 2 3 4 by linarith
  thus ?thesis unfolding a_def[symmetric] b_eq[symmetric] c_eq[symmetric] .
qed

lemma unat_u32_less: "unat (v :: u32) < 4294967296"
  using unsigned_less[of v, where 'a = nat] by simp

lemma Uint32_PutUint32 [simp]: "Uint32 (PutUint32 v @ rest) = v"
proof -
  let ?n = "unat v"
  have "Uint32 (PutUint32 v @ rest) =
        word_of_nat (?n mod 256 + 256 * (?n div 256 mod 256) + 65536 * (?n div 65536 mod 256)
          + 16777216 * (?n div 16777216 mod 256))"
    unfolding Uint32_def PutUint32_def Let_def by simp
  also have "\<dots> = word_of_nat ?n"
    by (simp only: le_bytes_sum[OF unat_u32_less[of v]])
  finally show ?thesis by simp
qed

lemma length_PutUint32 [simp]: "length (PutUint32 v) = 4"
  by (simp add: PutUint32_def Let_def)

lemma unat_word_of_nat32: "n < 4294967296 \<Longrightarrow> unat (word_of_nat n :: u32) = n"
  by (simp add: unat_of_nat)

lemma copy_at_fill:
  assumes "off = length a" and "length src + m = n"
  shows "copy_at off src (a @ make_slice n) = a @ src @ make_slice m"
proof -
  have n: "n = length src + m" using assms(2) by simp
  show ?thesis
    unfolding assms(1) n copy_at_def make_slice_def Let_def by simp
qed

lemma length_hex [simp]: "length (hex b) = 2 * length b"
  by (induction b) (simp_all add: hex_def)

lemma length_sha1_sum [simp]: "length (sha1_sum m) = 20"
  by (simp add: sha1_sum_def Let_def PutUint32BE_def split: prod.splits)

lemma length_calculateHash [simp]: "length (calculateHash v) = 40"
  by (simp add: calculateHash_def)

lemma Entry_calculateHash_eq: "Entry_calculateHash e = calculateHash (val e)"
  by (simp add: Entry_calculateHash_def calculateHash_def)

lemma encode_layout:
  assumes "length P = 4" "length Q = 4" "length R = 4"
  shows "copy_at (length k + 12 + length v) h (copy_at (length k + 12) v
           (copy_at (length k + 8) R (copy_at 8 k (copy_at 4 Q
             (copy_at 0 P (make_slice (length k + length v + length h + 12)))))))
         = P @ Q @ k @ R @ v @ h"
proof -
  let ?sz = "length k + length v + length h + 12"
  have r1: "copy_at 0 P ([] @ make_slice ?sz) = [] @ P @ make_slice (?sz - 4)"
    by (rule copy_at_fill) (simp_all add: assms)
  have r2: "copy_at 4 Q (P @ make_slice (?sz - 4)) = P @ Q @ make_slice (?sz - 8)"
    by (rule copy_at_fill) (simp_all add: assms)
  have r3: "copy_at 8 k ((P @ Q) @ make_slice (?sz - 8))
              = (P @ Q) @ k @ make_slice (length v + length h + 4)"
    by (rule copy_at_fill) (simp_all add: assms)
  have r4: "copy_at (length k + 8) R ((P @ Q @ k) @ make_slice (length v + length h + 4))
              = (P @ Q @ k) @ R @ make_slice (length v + length h)"
    by (rule copy_at_fill) (simp_all add: assms)
  have r5: "copy_at (length k + 12) v ((P @ Q @ k @ R) @ make_slice (length v + length h))
              = (P @ Q @ k @ R) @ v @ make_slice (length h)"
    by (rule copy_at_fill) (simp_all add: assms)
  have r6: "copy_at (length k + 12 + length v) h ((P @ Q @ k @ R @ v) @ make_slice (length h))
              = (P @ Q @ k @ R @ v) @ h @ make_slice 0"
    by (rule copy_at_fill) (simp_all add: assms)
  have z: "make_slice 0 = []" by (simp add: make_slice_def)
  show ?thesis
    apply (subst r1[unfolded append_Nil])
    apply (subst r2)
    apply (subst r3[unfolded append_assoc])
    apply (subst r4[unfolded append_assoc])
    apply (subst r5[unfolded append_assoc])
    apply (subst r6[unfolded append_assoc z append_Nil2])
    apply (rule refl)
    done
qed

lemma Encode_frame: "fst (Encode e) = frame (key e) (val e) (calculateHash (val e))"
  unfolding Encode_def Let_def fst_conv frame_def Entry_calculateHash_eq
  by (rule encode_layout) simp_all

lemma snd_Encode: "snd (Encode e) = e\<lparr>hash := calculateHash (val e)\<rparr>"
  by (simp add: Encode_def Let_def Entry_calculateHash_eq)

lemma length_frame [simp]: "length (frame k v h) = length k + length v + length h + 12"
  by (simp add: frame_def)


lemma unat_of_nat_plus:
  "n + m < 4294967296 \<Longrightarrow> unat (word_of_nat n + word_of_nat m :: u32) = n + m"
proof -
  assume a: "n + m < 4294967296"
  have "word_of_nat n + word_of_nat m = (word_of_nat (n + m) :: u32)" by simp
  thus ?thesis using a by (simp only: unat_of_nat) simp
qed

lemma frame_split:
  "frame k v h = PutUint32 (word_of_nat (length k + length v + length h + 12))
      @ (PutUint32 (word_of_nat (length k)) @ k @ PutUint32 (word_of_nat (length v)) @ v @ h)"
  by (simp add: frame_def)

lemma bind_err_Inr [simp]: "bind_err (Inr x) f = f x"
  by (simp add: bind_err_def)

lemma bind_err_Inl [simp]: "bind_err (Inl e) f = Inl e"
  by (simp add: bind_err_def)

lemma Decode_frame:
  assumes sz: "length k + length v + length h + 12 < 4294967296"
  shows "Decode (frame k v h) = Inr \<lparr>key = k, val = v, hash = h\<rparr>"
proof -
  let ?kl = "word_of_nat (length k) :: u32" and ?vl = "word_of_nat (length v) :: u32"
  let ?in = "frame k v h"
  have ukl: "unat ?kl = length k" and uvl: "unat ?vl = length v"
    using sz by (simp_all add: unat_of_nat)
  have u8: "unat (?kl + 8) = length k + 8"
    using unat_of_nat_plus[of "length k" 8] sz by simp
  have u12: "unat (?kl + 12) = length k + 12"
    using unat_of_nat_plus[of "length k" 12] sz by simp
  have u12v: "unat (?kl + 12 + ?vl) = length k + 12 + length v"
    using unat_of_nat_plus[of "length k + 12" "length v"] sz by simp
  have s4: "slice_from 4 ?in = Inr (PutUint32 ?kl @ k @ PutUint32 ?vl @ v @ h)"
    by (simp add: slice_from_def slice_def frame_def)
  have k1: "Uint32_checked (PutUint32 ?kl @ k @ PutUint32 ?vl @ v @ h) = Inr ?kl"
    by (simp add: Uint32_checked_def)
  have ks: "slice 8 (length k + 8) ?in = Inr k"
    by (simp add: slice_def frame_def)
  have sv: "slice_from (length k + 8) ?in = Inr (PutUint32 ?vl @ v @ h)"
    by (simp add: slice_from_def slice_def frame_def)
  have v1: "Uint32_checked (PutUint32 ?vl @ v @ h) = Inr ?vl"
    by (simp add: Uint32_checked_def)
  have vs: "slice (length k + 12) (length k + 12 + length v) ?in = Inr v"
    by (simp add: slice_def frame_def)
  have hs: "slice_from (length k + 12 + length v) ?in = Inr h"
    by (simp add: slice_from_def slice_def frame_def)
  have cp: "copy_at 0 x (make_slice (length x)) = x" for x
    by (simp add: copy_at_def make_slice_def)
  have hl: "nat (int (length ?in) - int (length k + 12 + length v)) = length h"
    by simp
  have hl0: "\<not> int (length ?in) - int (length k + 12 + length v) < 0"
    by simp
  show ?thesis
    unfolding Decode_def Let_def
    by (simp only: s4 k1 u8 ks sv v1 u12 u12v vs hs ukl uvl cp hl hl0 bind_err_Inr if_False)
qed

lemma readNext_frame:
  assumes sz: "length k + length v + length h + 12 < 4294967296"
  shows "readNext (frame k v h @ rest) = (Inr (frame k v h), rest)"
proof -
  have "take 4 (frame k v h @ rest) = PutUint32 (word_of_nat (length k + length v + length h + 12))"
    by (simp add: frame_def)
  hence "Uint32 (take 4 (frame k v h @ rest)) = word_of_nat (length k + length v + length h + 12)"
    using Uint32_PutUint32[of _ "[]"] by (simp only: append_Nil2)
  hence "unat (Uint32 (take 4 (frame k v h @ rest))) = length (frame k v h)"
    using unat_word_of_nat32[OF sz] by (simp only: length_frame)
  thus ?thesis by (simp add: readNext_def Let_def)
qed

lemma nat_int_diff: "b \<le> a \<Longrightarrow> nat (int a - int b) = a - (b::nat)"
  by simp

lemma bind_err_InrE:
  assumes "bind_err r f = Inr y"
  obtains x where "r = Inr x" and "f x = Inr y"
  using assms by (cases r) (simp_all add: bind_err_def)

lemma length_copy_at0 [simp]: "length (copy_at 0 src (make_slice n)) = n"
  by (simp add: copy_at_def make_slice_def Let_def)

lemma slice_InrD:
  "slice lo hi s = Inr x \<Longrightarrow> lo \<le> hi \<and> hi \<le> length s \<and> x = take (hi - lo) (drop lo s)"
  by (simp add: slice_def split: if_splits)

lemma slice_from_InrD:
  "slice_from lo s = Inr x \<Longrightarrow> lo \<le> length s \<and> x = drop lo s"
  by (simp add: slice_from_def slice_def split: if_splits)

lemma Uint32_checked_InrD:
  "Uint32_checked b = Inr w \<Longrightarrow> 4 \<le> length b \<and> w = Uint32 b"
  by (simp add: Uint32_checked_def split: if_splits)

lemma Decode_InrE:
  assumes "Decode input = Inr e"
  obtains kl vl where
    "8 \<le> length input" "kl = Uint32 (drop 4 input)"
    "8 \<le> unat (kl + 8)" "unat (kl + 8) + 4 \<le> length input"
    "vl = Uint32 (drop (unat (kl + 8)) input)"
    "unat (kl + 12) \<le> unat (kl + 12 + vl)" "unat (kl + 12 + vl) \<le> length input"
    "key e = copy_at 0 (take (unat (kl + 8) - 8) (drop 8 input)) (make_slice (unat kl))"
    "val e = copy_at 0 (take (unat (kl + 12 + vl) - unat (kl + 12)) (drop (unat (kl + 12)) input))
               (make_slice (unat vl))"
    "hash e = copy_at 0 (drop (unat (kl + 12 + vl)) input)
               (make_slice (length input - unat (kl + 12 + vl)))"
proof -
  from assms obtain s4 where 1: "slice_from 4 input = Inr s4"
    and r1: "bind_err (Uint32_checked s4) (\<lambda>kl.
     bind_err (slice 8 (unat (kl + 8)) input) (\<lambda>ks.
     let keyBuf = copy_at 0 ks (make_slice (unat kl)) in
     bind_err (slice_from (unat (kl + 8)) input) (\<lambda>sv.
     bind_err (Uint32_checked sv) (\<lambda>vl.
     bind_err (slice (unat (kl + 12)) (unat (kl + 12 + vl)) input) (\<lambda>vs.
     let valBuf = copy_at 0 vs (make_slice (unat vl));
         hl = int (length input) - int (unat (kl + 12 + vl)) in
     if hl < 0 then Inl RuntimePanic else
     bind_err (slice_from (unat (kl + 12 + vl)) input) (\<lambda>hs.
     let hashBuf = copy_at 0 hs (make_slice (nat hl)) in
     Inr \<lparr>key = keyBuf, val = valBuf, hash = hashBuf\<rparr>)))))) = Inr e"
    unfolding Decode_def by (erule bind_err_InrE)
  from r1 obtain kl where 2: "Uint32_checked s4 = Inr kl"
    and r2: "bind_err (slice 8 (unat (kl + 8)) input) (\<lambda>ks.
     let keyBuf = copy_at 0 ks (make_slice (unat kl)) in
     bind_err (slice_from (unat (kl + 8)) input) (\<lambda>sv.
     bind_err (Uint32_checked sv) (\<lambda>vl.
     bind_err (slice (unat (kl + 12)) (unat (kl + 12 + vl)) input) (\<lambda>vs.
     let valBuf = copy_at 0 vs (make_slice (unat vl));
         hl = int (length input) - int (unat (kl + 12 + vl)) in
     if hl < 0 then Inl RuntimePanic else
     bind_err (slice_from (unat (kl + 12 + vl)) input) (\<lambda>hs.
     let hashBuf = copy_at 0 hs (make_slice (nat hl)) in
     Inr \<lparr>key = keyBuf, val = valBuf, hash = hashBuf\<rparr>))))) = Inr e"
    by (erule bind_err_InrE)
  from r2 obtain ks where 3: "slice 8 (unat (kl + 8)) input = Inr ks"
    and r3: "bind_err (slice_from (unat (kl + 8)) input) (\<lambda>sv.
     bind_err (Uint32_checked sv) (\<lambda>vl.
     bind_err (slice (unat (kl + 12)) (unat (kl + 12 + vl)) input) (\<lambda>vs.
     let valBuf = copy_at 0 vs (make_slice (unat vl));
         hl = int (length input) - int (unat (kl + 12 + vl)) in
     if hl < 0 then Inl RuntimePanic else
     bind_err (slice_from (unat (kl + 12 + vl)) input) (\<lambda>hs.
     let hashBuf = copy_at 0 hs (make_slice (nat hl)) in
     Inr \<lparr>key = copy_at 0 ks (make_slice (unat kl)), val = valBuf, hash = hashBuf\<rparr>)))) = Inr e"
    unfolding Let_def by (erule bind_err_InrE)
  from r3 obtain sv where 4: "slice_from (unat (kl + 8)) input = Inr sv"
    and r4: "bind_err (Uint32_checked sv) (\<lambda>vl.
     bind_err (slice (unat (kl + 12)) (unat (kl + 12 + vl)) input) (\<lambda>vs.
     let valBuf = copy_at 0 vs (make_slice (unat vl));
         hl = int (length input) - int (unat (kl + 12 + vl)) in
     if hl < 0 then Inl RuntimePanic else
     bind_err (slice_from (unat (kl + 12 + vl)) input) (\<lambda>hs.
     let hashBuf = copy_at 0 hs (make_slice (nat hl)) in
     Inr \<lparr>key = copy_at 0 ks (make_slice (unat kl)), val = valBuf, hash = hashBuf\<rparr>))) = Inr e"
    by (erule bind_err_InrE)
  from r4 obtain vl where 5: "Uint32_checked sv = Inr vl"
    and r5: "bind_err (slice (unat (kl + 12)) (unat (kl + 12 + vl)) input) (\<lambda>vs.
     let valBuf = copy_at 0 vs (make_slice (unat vl));
         hl = int (length input) - int (unat (kl + 12 + vl)) in
     if hl < 0 then Inl RuntimePanic else
     bind_err (slice_from (unat (kl + 12 + vl)) input) (\<lambda>hs.
     let hashBuf = copy_at 0 hs (make_slice (nat hl)) in
     Inr \<lparr>key = copy_at 0 ks (make_slice (unat kl)), val = valBuf, hash = hashBuf\<rparr>)) = Inr e"
    by (erule bind_err_InrE)
  from r5 obtain vs where 6: "slice (unat (kl + 12)) (unat (kl + 12 + vl)) input = Inr vs"
    and r6: "(if int (length input) - int (unat (kl + 12 + vl)) < 0 then Inl RuntimePanic else
     bind_err (slice_from (unat (kl + 12 + vl)) input) (\<lambda>hs.
     Inr \<lparr>key = copy_at 0 ks (make_slice (unat kl)),
          val = copy_at 0 vs (make_slice (unat vl)),
          hash = copy_at 0 hs (make_slice (nat (int (length input) - int (unat (kl + 12 + vl)))))\<rparr>))
       = Inr e"
    unfolding Let_def by (erule bind_err_InrE)
  from r6 have r7: "bind_err (slice_from (unat (kl + 12 + vl)) input) (\<lambda>hs.
     Inr \<lparr>key = copy_at 0 ks (make_slice (unat kl)),
          val = copy_at 0 vs (make_slice (unat vl)),
          hash = copy_at 0 hs (make_slice (nat (int (length input) - int (unat (kl + 12 + vl)))))\<rparr>)
       = Inr e"
    by (simp split: if_splits)
  from r7 obtain hs where 7: "slice_from (unat (kl + 12 + vl)) input = Inr hs"
    and e: "e = \<lparr>key = copy_at 0 ks (make_slice (unat kl)),
          val = copy_at 0 vs (make_slice (unat vl)),
          hash = copy_at 0 hs (make_slice (nat (int (length input) - int (unat (kl + 12 + vl)))))\<rparr>"
    by (auto elim!: bind_err_InrE)
  note d1 = slice_from_InrD[OF 1] and d2 = Uint32_checked_InrD[OF 2] and d3 = slice_InrD[OF 3]
    and d4 = slice_from_InrD[OF 4] and d5 = Uint32_checked_InrD[OF 5] and d6 = slice_InrD[OF 6]
    and d7 = slice_from_InrD[OF 7]
  have len: "unat (kl + 12 + vl) \<le> length input" using d6 by simp
  have hl: "nat (int (length input) - int (unat (kl + 12 + vl))) = length input - unat (kl + 12 + vl)"
    by (rule nat_int_diff[OF len])
  show thesis
  proof (rule that[of kl vl])
    show "8 \<le> length input" using d1 d2 by auto
    show "kl = Uint32 (drop 4 input)" using d1 d2 by simp
    show "8 \<le> unat (kl + 8)" using d3 by simp
    show "unat (kl + 8) + 4 \<le> length input" using d4 d5 by auto
    show "vl = Uint32 (drop (unat (kl + 8)) input)" using d4 d5 by simp
    show "unat (kl + 12) \<le> unat (kl + 12 + vl)" using d6 by simp
    show "unat (kl + 12 + vl) \<le> length input" by (rule len)
    show "key e = copy_at 0 (take (unat (kl + 8) - 8) (drop 8 input)) (make_slice (unat kl))"
      using d3 e by simp
    show "val e = copy_at 0 (take (unat (kl + 12 + vl) - unat (kl + 12)) (drop (unat (kl + 12)) input))
               (make_slice (unat vl))" using d6 e by simp
    show "hash e = copy_at 0 (drop (unat (kl + 12 + vl)) input)
               (make_slice (length input - unat (kl + 12 + vl)))" using d7 e by (simp only: hl Entry.select_convs)
  qed
qed

lemma Decode_bounds:
  assumes "Decode input = Inr e"
  shows "length (key e) < 4294967296" and "length (val e) < 4294967296" and "12 \<le> length input"
proof -
  from assms obtain kl vl where
    a: "8 \<le> length input" "kl = Uint32 (drop 4 input)"
    "8 \<le> unat (kl + 8)" "unat (kl + 8) + 4 \<le> length input"
    "vl = Uint32 (drop (unat (kl + 8)) input)"
    "unat (kl + 12) \<le> unat (kl + 12 + vl)" "unat (kl + 12 + vl) \<le> length input"
    and k: "key e = copy_at 0 (take (unat (kl + 8) - 8) (drop 8 input)) (make_slice (unat kl))"
    and v: "val e = copy_at 0 (take (unat (kl + 12 + vl) - unat (kl + 12)) (drop (unat (kl + 12)) input))
               (make_slice (unat vl))"
    and h: "hash e = copy_at 0 (drop (unat (kl + 12 + vl)) input)
               (make_slice (length input - unat (kl + 12 + vl)))"
    by (rule Decode_InrE)
  show "length (key e) < 4294967296" unfolding k using unat_u32_less[of kl] by simp
  show "length (val e) < 4294967296" unfolding v using unat_u32_less[of vl] by simp
  show "12 \<le> length input" using a by simp
qed

subsection \<open>Codec round trip\<close>

text \<open>
  C3 (amended). For every key \<open>k\<close> and value \<open>v\<close> whose frame fits the 32-bit size
  field (\<open>length k + length v + 52 < 2^32\<close>), decoding the encoding of
  \<open>Entry{key: k, value: v}\<close> yields the entry with key \<open>k\<close>, value \<open>v\<close> and the
  40-character hex SHA-1 digest of \<open>v\<close> as hash; \<open>Encode\<close> sets the hash of its receiver
  from the value, whatever hash \<open>h0\<close> the caller supplied.
\<close>

theorem codec_round_trip:
  assumes "length k + length v + 52 < 4294967296"
  shows "Decode (fst (Encode \<lparr>key = k, val = v, hash = h0\<rparr>))
           = Inr \<lparr>key = k, val = v, hash = hex (sha1_sum v)\<rparr>
         \<and> length (hex (sha1_sum v)) = 40
         \<and> snd (Encode \<lparr>key = k, val = v, hash = h0\<rparr>)
           = \<lparr>key = k, val = v, hash = hex (sha1_sum v)\<rparr>"
proof -
  have sz: "length k + length v + length (calculateHash v) + 12 < 4294967296"
    using assms by simp
  have "Decode (fst (Encode \<lparr>key = k, val = v, hash = h0\<rparr>))
          = Inr \<lparr>key = k, val = v, hash = calculateHash v\<rparr>"
    using Decode_frame[OF sz] by (simp add: Encode_frame)
  moreover have "snd (Encode \<lparr>key = k, val = v, hash = h0\<rparr>)
          = \<lparr>key = k, val = v, hash = calculateHash v\<rparr>"
    by (simp add: snd_Encode)
  ultimately show ?thesis by (simp add: calculateHash_def)
qed

theorem codec_round_trip_witness:
  "Decode (fst (Encode \<lparr>key = ''key'', val = ''value'', hash = ''caller''\<rparr>))
     = Inr \<lparr>key = ''key'', val = ''value'', hash = hex (sha1_sum ''value'')\<rparr>
   \<and> length (hex (sha1_sum ''value'')) = 40
   \<and> snd (Encode \<lparr>key = ''key'', val = ''value'', hash = ''caller''\<rparr>)
     = \<lparr>key = ''key'', val = ''value'', hash = hex (sha1_sum ''value'')\<rparr>"
  using codec_round_trip[of "''key''" "''value''" "''caller''"] by simp

theorem codec_round_trip_counterexample:
  "Decode (fst (Encode \<lparr>key = replicate 4294967296 (CHR ''a''), val = [], hash = []\<rparr>))
     \<noteq> Inr \<lparr>key = replicate 4294967296 (CHR ''a''), val = [], hash = hex (sha1_sum [])\<rparr>"
proof
  assume "Decode (fst (Encode \<lparr>key = replicate 4294967296 (CHR ''a''), val = [], hash = []\<rparr>))
     = Inr \<lparr>key = replicate 4294967296 (CHR ''a''), val = [], hash = hex (sha1_sum [])\<rparr>"
  from Decode_bounds(1)[OF this]
  have "length (replicate 4294967296 (CHR ''a'')) < 4294967296"
    by (simp only: Entry.select_convs)
  thus False by (simp only: length_replicate less_irrefl)
qed

subsection \<open>Reading records\<close>

lemma readNext_cases:
  "readNext r =
     (if length r < 4 then (Inl EOF, r)
      else if length r < unat (Uint32 (take 4 r)) then (Inl ErrUnexpectedEOF, [])
      else (Inr (take (unat (Uint32 (take 4 r))) r), drop (unat (Uint32 (take 4 r))) r))"
  by (simp add: readNext_def Let_def)

lemma readNext_InrD:
  assumes "readNext r = (Inr data, r1)"
  shows "length data + length r1 = length r" and "data = take (length data) r"
    and "r1 = drop (length data) r"
  using assms by (auto simp add: readNext_cases split: if_splits)

lemma readNext_InlD:
  assumes "readNext r = (Inl e, r1)"
  shows "e = EOF \<or> e = ErrUnexpectedEOF"
  using assms by (auto simp add: readNext_cases split: if_splits)

lemma slice_Inl: "slice lo hi s = Inl e \<Longrightarrow> e = RuntimePanic"
  by (simp add: slice_def split: if_splits)

lemma slice_from_Inl: "slice_from lo s = Inl e \<Longrightarrow> e = RuntimePanic"
  by (simp add: slice_from_def slice_Inl)

lemma Uint32_checked_Inl: "Uint32_checked b = Inl e \<Longrightarrow> e = RuntimePanic"
  by (simp add: Uint32_checked_def split: if_splits)

lemma bind_err_InlE:
  assumes "bind_err r f = Inl e"
  obtains "r = Inl e" | x where "r = Inr x" and "f x = Inl e"
  using assms by (cases r) (simp_all add: bind_err_def)

lemma Decode_Inl:
  assumes "Decode input = Inl e"
  shows "e = RuntimePanic"
  using assms unfolding Decode_def Let_def
  by (auto elim!: bind_err_InlE dest: slice_Inl slice_from_Inl Uint32_checked_Inl
        split: if_splits)

lemma Decode_short: "length input < 12 \<Longrightarrow> Decode input = Inl RuntimePanic"
proof -
  assume a: "length input < 12"
  obtain r where r: "Decode input = r" by simp
  show ?thesis
  proof (cases r)
    case (Inl e)
    with r Decode_Inl show ?thesis by simp
  next
    case (Inr e)
    with r Decode_bounds(3)[of input e] a show ?thesis by simp
  qed
qed

subsection \<open>Termination of segment recovery\<close>

lemma recoverSegment_scan_stops:
  "\<exists>err idx'. recoverSegment_scan r idx offset = Some (err, idx')
      \<and> (err = None \<or> err = Some ErrUnexpectedEOF \<or> err = Some RuntimePanic)"
proof (induction "length r" arbitrary: r idx offset rule: less_induct)
  case less
  obtain res r1 where rn: "readNext r = (res, r1)" by (cases "readNext r")
  show ?case
  proof (cases res)
    case (Inl e)
    with rn readNext_InlD[of r e r1] show ?thesis
      by (subst recoverSegment_scan.simps) auto
  next
    case (Inr data)
    note data = this
    show ?thesis
    proof (cases "Decode data")
      case (Inl e)
      with Decode_Inl[of data e] rn data show ?thesis
        by (subst recoverSegment_scan.simps) simp
    next
      case (Inr e)
      from Decode_bounds(3)[OF Inr] have "12 \<le> length data" .
      moreover from readNext_InrD(1)[of r data r1] rn data
      have "length data + length r1 = length r" by simp
      ultimately have "length r1 < length r" by simp
      from less[OF this, of "idx(key e \<mapsto> offset)" "offset + int (length data)"]
      show ?thesis using rn data Inr
        by (subst recoverSegment_scan.simps) simp
    qed
  qed
qed

text \<open>
  C10 (amended). Segment recovery stops after finitely many steps for every file content
  and every starting index: \<open>recoverSegment\<close> always produces a result. The scan ends at
  end-of-file (\<open>nil\<close>), with \<open>io.ErrUnexpectedEOF\<close> for a frame cut short, or with the
  runtime panic that \<open>Decode\<close> raises on a frame shorter than its own header; a missing
  file is reported by \<open>os.Open\<close>.
\<close>

theorem recoverSegment_terminates:
  "\<exists>err s'. recoverSegment s d = Some (err, s')
     \<and> (err = None \<or> err = Some ErrUnexpectedEOF \<or> err = Some RuntimePanic
          \<or> err = Some ErrNotExist)"
proof (cases "map_of d (filePath s)")
  case None
  thus ?thesis by (simp add: recoverSegment_def)
next
  case (Some content)
  from recoverSegment_scan_stops[of content "index s" 0]
  obtain err idx' where "recoverSegment_scan content (index s) 0 = Some (err, idx')"
    and "err = None \<or> err = Some ErrUnexpectedEOF \<or> err = Some RuntimePanic" by blast
  with Some show ?thesis by (auto simp add: recoverSegment_def)
qed

theorem recoverSegment_terminates_witness:
  "\<exists>err s'. recoverSegment \<lparr>index = Map.empty, filePath = ''current-data0''\<rparr>
       [(''current-data0'', [CHR 0x03, CHR 0x00, CHR 0x00, CHR 0x00, CHR 0x07])] = Some (err, s')
     \<and> (err = None \<or> err = Some ErrUnexpectedEOF \<or> err = Some RuntimePanic
          \<or> err = Some ErrNotExist)"
  using recoverSegment_terminates[of "\<lparr>index = Map.empty, filePath = ''current-data0''\<rparr>"
      "[(''current-data0'', [CHR 0x03, CHR 0x00, CHR 0x00, CHR 0x00, CHR 0x07])]"]
  by simp

lemma Uint32_zero: "Uint32 [CHR 0x00, CHR 0x00, CHR 0x00, CHR 0x00] = 0"
  by (simp add: Uint32_def)

theorem recoverSegment_zero_size_counterexample:
  "recoverSegment \<lparr>index = Map.empty, filePath = ''current-data0''\<rparr>
       [(''current-data0'', [CHR 0x00, CHR 0x00, CHR 0x00, CHR 0x00])]
     = Some (Some RuntimePanic, \<lparr>index = Map.empty, filePath = ''current-data0''\<rparr>)"
proof -
  have rn: "readNext [CHR 0x00, CHR 0x00, CHR 0x00, CHR 0x00]
              = (Inr [], [CHR 0x00, CHR 0x00, CHR 0x00, CHR 0x00])"
    by (simp add: readNext_cases Uint32_zero)
  have dec: "Decode [] = Inl RuntimePanic" by (rule Decode_short) simp
  have "recoverSegment_scan [CHR 0x00, CHR 0x00, CHR 0x00, CHR 0x00] Map.empty 0
          = Some (Some RuntimePanic, Map.empty)"
    by (subst recoverSegment_scan.simps) (simp add: rn dec)
  thus ?thesis by (simp add: recoverSegment_def)
qed

subsection \<open>Malformed frames on the read path\<close>

lemma getFromSegment_unfold:
  assumes "map_of d (filePath s) = Some content" and "0 \<le> pos"
  shows "getFromSegment s pos d =
     (let r = drop (nat pos) content in
      if length r < 4 then Inl EOF
      else if length r < unat (Uint32 (take 4 r)) then Inl ErrUnexpectedEOF
      else Decode (take (unat (Uint32 (take 4 r))) r))"
  using assms by (simp add: getFromSegment_def readNext_cases Let_def)

text \<open>
  C4 (amended). The record-reading path (\<open>readNext\<close> followed by \<open>Decode\<close>, as in
  \<open>getFromSegment\<close>) reports a truncated frame as an error: with fewer than 4 bytes left
  at the read position it returns \<open>io.EOF\<close>, and with fewer bytes left than the size
  prefix announces it returns \<open>io.ErrUnexpectedEOF\<close>. In every other case \<open>Decode\<close> is
  applied to the \<open>total_size\<close> bytes read, without any check of \<open>total_size\<close> or of the
  length fields; the source has no corrupt-record error.
\<close>

theorem read_path_truncated:
  assumes "map_of d (filePath s) = Some content" and "0 \<le> pos"
    and "r = drop (nat pos) content"
  shows "(length r < 4 \<longrightarrow> getFromSegment s pos d = Inl EOF)
       \<and> (4 \<le> length r \<and> length r < unat (Uint32 (take 4 r))
            \<longrightarrow> getFromSegment s pos d = Inl ErrUnexpectedEOF)
       \<and> (4 \<le> length r \<and> unat (Uint32 (take 4 r)) \<le> length r
            \<longrightarrow> getFromSegment s pos d = Decode (take (unat (Uint32 (take 4 r))) r))"
  using getFromSegment_unfold[OF assms(1,2)] assms(3) by (simp add: Let_def)

theorem read_path_truncated_witness:
  "getFromSegment \<lparr>index = Map.empty, filePath = ''current-data0''\<rparr> 0
     [(''current-data0'', [CHR 0x3C, CHR 0x00, CHR 0x00, CHR 0x00, CHR 0x03, CHR 0x00])]
   = Inl ErrUnexpectedEOF"
proof -
  have u: "unat (Uint32 [CHR 0x3C, CHR 0x00, CHR 0x00, CHR 0x00]) = 60"
    by (simp add: Uint32_def)
  show ?thesis
    using read_path_truncated[of "[(''current-data0'',
        [CHR 0x3C, CHR 0x00, CHR 0x00, CHR 0x00, CHR 0x03, CHR 0x00])]"
      "\<lparr>index = Map.empty, filePath = ''current-data0''\<rparr>"
      "[CHR 0x3C, CHR 0x00, CHR 0x00, CHR 0x00, CHR 0x03, CHR 0x00]" 0
      "[CHR 0x3C, CHR 0x00, CHR 0x00, CHR 0x00, CHR 0x03, CHR 0x00]"]
    by (simp add: u)
qed

lemma Uint32_small:
  "Uint32 (c # CHR 0x00 # CHR 0x00 # CHR 0x00 # rest) = word_of_nat (of_char c)"
  by (simp add: Uint32_def)

theorem read_path_malformed_counterexample:
  "getFromSegment \<lparr>index = Map.empty, filePath = ''current-data0''\<rparr> 0
     [(''current-data0'', [CHR 0x04, CHR 0x00, CHR 0x00, CHR 0x00])]
   = Inl RuntimePanic
   \<and> getFromSegment \<lparr>index = Map.empty, filePath = ''current-data0''\<rparr> 0
     [(''current-data0'', [CHR 0x0C, CHR 0x00, CHR 0x00, CHR 0x00,
                           CHR 0x00, CHR 0x00, CHR 0x00, CHR 0x00,
                           CHR 0x00, CHR 0x00, CHR 0x00, CHR 0x00])]
   = Inr \<lparr>key = [], val = [], hash = []\<rparr>"
proof
  have "Decode [CHR 0x04, CHR 0x00, CHR 0x00, CHR 0x00] = Inl RuntimePanic"
    by (rule Decode_short) simp
  thus "getFromSegment \<lparr>index = Map.empty, filePath = ''current-data0''\<rparr> 0
     [(''current-data0'', [CHR 0x04, CHR 0x00, CHR 0x00, CHR 0x00])] = Inl RuntimePanic"
    by (simp add: getFromSegment_def readNext_cases Uint32_small)
next
  let ?f = "[CHR 0x0C, CHR 0x00, CHR 0x00, CHR 0x00, CHR 0x00, CHR 0x00, CHR 0x00, CHR 0x00,
             CHR 0x00, CHR 0x00, CHR 0x00, CHR 0x00]"
  have "Decode ?f = Inr \<lparr>key = [], val = [], hash = []\<rparr>"
    by (simp add: Decode_def slice_from_def slice_def Uint32_checked_def Uint32_small
          copy_at_def make_slice_def)
  thus "getFromSegment \<lparr>index = Map.empty, filePath = ''current-data0''\<rparr> 0
     [(''current-data0'', ?f)] = Inr \<lparr>key = [], val = [], hash = []\<rparr>"
    by (simp add: getFromSegment_def readNext_cases Uint32_small)
qed

subsection \<open>Load balancer selector\<close>






subsection \<open>Files\<close>

lemma map_of_OpenFile_create:
  "map_of (OpenFile_create p d) q =
     (if q = p then (case map_of d p of None \<Rightarrow> Some [] | Some c \<Rightarrow> Some c) else map_of d q)"
  by (auto simp add: OpenFile_create_def map_add_def split: option.splits)

lemma map_of_Write:
  "map_of (Write p data d) q =
     (if q = p then (case map_of d p of None \<Rightarrow> None | Some c \<Rightarrow> Some (c @ data)) else map_of d q)"
  by (simp add: Write_def update_conv' split: option.splits)

lemma map_of_Remove: "map_of (Remove p d) q = (if q = p then None else map_of d q)"
  by (simp add: Remove_def delete_conv')

lemma file_size_Some: "map_of d p = Some c \<Longrightarrow> file_size p d = length c"
  by (simp add: file_size_def)

lemma names_OpenFile_create:
  "map fst (OpenFile_create p d) = (if p \<in> set (map fst d) then map fst d else map fst d @ [p])"
proof (cases "map_of d p")
  case None
  moreover from None have "p \<notin> fst ` set d" by (simp add: map_of_eq_None_iff)
  ultimately show ?thesis by (simp add: OpenFile_create_def)
next
  case (Some c)
  hence "p \<in> fst ` set d" by (rule map_of_SomeD[THEN imageI[where f = fst], simplified])
  thus ?thesis using Some by (simp add: OpenFile_create_def)
qed

lemma names_Write: "map fst (Write p data d) = map fst d"
proof (cases "map_of d p")
  case None
  thus ?thesis by (simp add: Write_def)
next
  case (Some c)
  hence "p \<in> fst ` set d" by (rule map_of_SomeD[THEN imageI[where f = fst], simplified])
  thus ?thesis using Some by (simp add: Write_def update_keys)
qed

lemma names_Remove: "map fst (Remove p d) = removeAll p (map fst d)"
  by (simp add: Remove_def delete_keys)

subsection \<open>Records on disk\<close>

lemma stored_atD:
  assumes "stored_at d path pos k v h"
  obtains c where "map_of d path = Some c" and "0 \<le> pos"
    and "length k + length v + length h + 12 < 4294967296"
    and "drop (nat pos) c = frame k v h @ drop (nat pos + length (frame k v h)) c"
    and "nat pos + length (frame k v h) \<le> length c"
proof -
  from assms obtain c where c: "map_of d path = Some c"
    and t: "take (length k + length v + length h + 12) (drop (nat pos) c) = frame k v h"
    and p: "0 \<le> pos" and sz: "length k + length v + length h + 12 < 4294967296"
    by (auto simp add: stored_at_def split: option.splits)
  have "drop (nat pos) c = take (length (frame k v h)) (drop (nat pos) c)
          @ drop (length (frame k v h)) (drop (nat pos) c)"
    by (simp only: append_take_drop_id)
  hence d: "drop (nat pos) c = frame k v h @ drop (nat pos + length (frame k v h)) c"
    using t by (simp add: add.commute)
  from arg_cong[OF t, of length]
  have "length (frame k v h) = min (length c - nat pos) (length k + length v + length h + 12)"
    by (simp only: length_take length_drop)
  hence "nat pos + length (frame k v h) \<le> length c" by simp
  with c p sz d show thesis by (rule that)
qed

lemma stored_atI:
  assumes "map_of d path = Some c" and "0 \<le> pos"
    and "length k + length v + length h + 12 < 4294967296"
    and "drop (nat pos) c = frame k v h @ rest"
  shows "stored_at d path pos k v h"
  using assms by (simp add: stored_at_def)

lemma getFromSegment_stored:
  assumes "stored_at d (filePath s) pos k v h"
  shows "getFromSegment s pos d = Inr \<lparr>key = k, val = v, hash = h\<rparr>"
proof -
  from assms obtain c where c: "map_of d (filePath s) = Some c" and p: "0 \<le> pos"
    and sz: "length k + length v + length h + 12 < 4294967296"
    and d: "drop (nat pos) c = frame k v h @ drop (nat pos + length (frame k v h)) c"
    by (rule stored_atD)
  show ?thesis
    using c p by (simp add: getFromSegment_def d readNext_frame[OF sz] Decode_frame[OF sz])
qed

lemma stored_at_Write_other:
  assumes "stored_at d path pos k v h"
  shows "stored_at (Write p data d) path pos k v h"
proof -
  from assms obtain c where c: "map_of d path = Some c" and p: "0 \<le> pos"
    and sz: "length k + length v + length h + 12 < 4294967296"
    and d: "drop (nat pos) c = frame k v h @ drop (nat pos + length (frame k v h)) c"
    and le: "nat pos + length (frame k v h) \<le> length c"
    by (rule stored_atD)
  show ?thesis
  proof (cases "path = p")
    case True
    hence m: "map_of (Write p data d) path = Some (c @ data)" using c by (simp add: map_of_Write)
    have "drop (nat pos) (c @ data) = drop (nat pos) c @ data" using le by simp
    hence "drop (nat pos) (c @ data)
             = frame k v h @ (drop (nat pos + length (frame k v h)) c @ data)"
      using d by simp
    from stored_atI[OF m p sz this] show ?thesis .
  next
    case False
    hence m: "map_of (Write p data d) path = Some c" using c by (simp add: map_of_Write)
    from stored_atI[OF m p sz d] show ?thesis .
  qed
qed

lemma stored_at_cong:
  assumes "stored_at d path pos k v h" and "map_of d' path = map_of d path"
  shows "stored_at d' path pos k v h"
  using assms by (simp add: stored_at_def)

lemma stored_at_Write_new:
  assumes "map_of d p = Some c" and "length k + length v + length h + 12 < 4294967296"
  shows "stored_at (Write p (frame k v h) d) p (int (length c)) k v h"
proof -
  have m: "map_of (Write p (frame k v h) d) p = Some (c @ frame k v h)"
    using assms(1) by (simp add: map_of_Write)
  have "drop (nat (int (length c))) (c @ frame k v h) = frame k v h @ []" by simp
  from stored_atI[OF m _ assms(2) this] show ?thesis by simp
qed

subsection \<open>Lookup\<close>

lemma getPos_from_NotFound:
  "(getPos_from ss k = Inl e) = (e = ErrNotFound \<and> (\<forall>s \<in> set ss. index s k = None))"
  by (induction ss) (auto split: option.splits)

lemma getPos_from_Inr:
  "getPos_from ss k = Inr kp \<Longrightarrow>
     segment kp \<in> set ss \<and> index (segment kp) k = Some (position kp)"
  by (induction ss) (auto split: option.splits)

lemma getPos_from_append:
  "getPos_from (ss @ ts) k =
     (case getPos_from ss k of Inl e \<Rightarrow> getPos_from ts k | Inr kp \<Rightarrow> Inr kp)"
  by (induction ss) (auto split: option.splits)

lemma getFromSegment_Inl:
  assumes "getFromSegment s pos d = Inl e"
  shows "e \<noteq> ErrNotFound \<and> e \<noteq> ErrHashMismatch"
proof -
  have "e = ErrNotExist \<or> e = ErrInvalid \<or> e = EOF \<or> e = ErrUnexpectedEOF \<or> e = RuntimePanic"
    using assms readNext_InlD Decode_Inl
    by (fastforce simp add: getFromSegment_def split: option.splits if_splits prod.splits sum.splits)
  thus ?thesis by auto
qed

text \<open>
  C8. \<open>Get(k)\<close> fails with \<open>ErrNotFound\<close> if and only if \<open>k\<close> is absent from the
  in-memory index of every segment at lookup time.
\<close>

theorem Get_NotFound_iff:
  "(Get k (db, d) = Inl ErrNotFound) = (\<forall>s \<in> set (segments db). index s k = None)"
proof (cases "getPos db k")
  case (Inl e)
  hence "e = ErrNotFound \<and> (\<forall>s \<in> set (segments db). index s k = None)"
    by (simp add: getPos_def getPos_from_NotFound)
  thus ?thesis using Inl by (simp add: Get_def)
next
  case (Inr kp)
  from getPos_from_Inr[of "rev (segments db)" k kp] Inr
  have ex: "segment kp \<in> set (segments db)" "index (segment kp) k = Some (position kp)"
    by (simp_all add: getPos_def)
  have "Get k (db, d) \<noteq> Inl ErrNotFound"
  proof (cases "getFromSegment (segment kp) (position kp) d")
    case (Inl e)
    with getFromSegment_Inl[OF Inl] Inr show ?thesis by (simp add: Get_def)
  next
    case (Inr entry)
    with \<open>getPos db k = Inr kp\<close> show ?thesis by (simp add: Get_def)
  qed
  moreover have "\<not> (\<forall>s \<in> set (segments db). index s k = None)" using ex by auto
  ultimately show ?thesis by simp
qed

theorem Get_NotFound_iff_witness:
  "Get ''b'' (\<lparr>out = Some ''current-data0'', segmentSize = 100, lastSegmentIndex = 0,
        segments = [\<lparr>index = [''a'' \<mapsto> 0], filePath = ''current-data0''\<rparr>]\<rparr>,
      [(''current-data0'', [])]) = Inl ErrNotFound
   \<and> Get ''a'' (\<lparr>out = Some ''current-data0'', segmentSize = 100, lastSegmentIndex = 0,
        segments = [\<lparr>index = [''a'' \<mapsto> 0], filePath = ''current-data0''\<rparr>]\<rparr>,
      [(''current-data0'', [])]) \<noteq> Inl ErrNotFound"
  using Get_NotFound_iff[of "''b''" "\<lparr>out = Some ''current-data0'', segmentSize = 100,
        lastSegmentIndex = 0,
        segments = [\<lparr>index = [''a'' \<mapsto> 0], filePath = ''current-data0''\<rparr>]\<rparr>"
        "[(''current-data0'', [])]"]
    Get_NotFound_iff[of "''a''" "\<lparr>out = Some ''current-data0'', segmentSize = 100,
        lastSegmentIndex = 0,
        segments = [\<lparr>index = [''a'' \<mapsto> 0], filePath = ''current-data0''\<rparr>]\<rparr>"
        "[(''current-data0'', [])]"]
  by simp

subsection \<open>Integrity check\<close>



lemma Get_stored:
  assumes "getPos db k = Inr kp"
    and "stored_at d (filePath (segment kp)) (position kp) k' v h"
  shows "Get k (db, d) = (if h = hex (sha1_sum v) then Inr v else Inl ErrHashMismatch)"
  using assms(1) getFromSegment_stored[OF assms(2)]
  by (auto simp add: Get_def Entry_calculateHash_def)



subsection \<open>One put\<close>

lemma GetLength_put:
  "GetLength \<lparr>key = k, val = v, hash = calculateHash v\<rparr> = int (length k + length v + 52)"
  by (simp add: GetLength_def getLength_def)

lemma Encode_put:
  "fst (Encode \<lparr>key = k, val = v, hash = calculateHash v\<rparr>) = frame k v (calculateHash v)"
  by (simp add: Encode_frame)

lemma file_size_Write:
  "map_of d p = Some c \<Longrightarrow> file_size p (Write p data d) = length c + length data"
  by (simp add: file_size_def map_of_Write)

lemma Put_append:
  assumes "db_open (db, d)" and "map_of d (filePath (last (segments db))) = Some c"
    and "\<not> int (length c) + int (length k + length v + 52) > segmentSize db"
  shows "Put k v (db, d) =
     (None, (db\<lparr>segments := butlast (segments db)
                @ [(last (segments db))\<lparr>index := (index (last (segments db)))(k \<mapsto> int (length c))\<rparr>]\<rparr>,
             Write (filePath (last (segments db))) (frame k v (calculateHash v)) d))"
proof -
  let ?f = "filePath (last (segments db))"
  from assms(1) have o: "out db = Some ?f" and ne: "segments db \<noteq> []"
    by (simp_all add: db_open_def)
  have fs: "file_size ?f d = length c" using assms(2) by (rule file_size_Some)
  have fw: "file_size ?f (Write ?f (frame k v (calculateHash v)) d)
              = length c + length (frame k v (calculateHash v))"
    using assms(2) by (rule file_size_Write)
  show ?thesis
    using assms(3) o ne
    by (simp add: Put_def startPutRoutine_def setKey_def getLastSegment_def Let_def
          GetLength_put Encode_put fs fw)
qed

lemma Put_rollover:
  assumes "db_open (db, d)" and "map_of d (filePath (last (segments db))) = Some c"
    and "int (length c) + int (length k + length v + 52) > segmentSize db"
    and "f' = outFileName @ format_int (lastSegmentIndex db + 1)"
    and "c' = (case map_of d f' of None \<Rightarrow> [] | Some x \<Rightarrow> x)"
  shows "Put k v (db, d) =
     (None, (db\<lparr>lastSegmentIndex := lastSegmentIndex db + 1, out := Some f',
                segments := segments db @ [\<lparr>index = [k \<mapsto> int (length c')], filePath = f'\<rparr>]\<rparr>,
             Write f' (frame k v (calculateHash v)) (OpenFile_create f' d)))"
proof -
  let ?f = "filePath (last (segments db))"
  from assms(1) have o: "out db = Some ?f" and ne: "segments db \<noteq> []"
    by (simp_all add: db_open_def)
  have fs: "file_size ?f d = length c" using assms(2) by (rule file_size_Some)
  have m: "map_of (OpenFile_create f' d) f' = Some c'"
    using assms(5) by (simp add: map_of_OpenFile_create split: option.splits)
  have fw: "file_size f' (Write f' (frame k v (calculateHash v)) (OpenFile_create f' d))
              = length c' + length (frame k v (calculateHash v))"
    using m by (rule file_size_Write)
  have g: "generateNewFileName (db\<lparr>lastSegmentIndex := lastSegmentIndex db + 1\<rparr>) = f'"
    using assms(4) by (simp add: generateNewFileName_def)
  show ?thesis
    using assms(3) o ne
    by (simp add: Put_def startPutRoutine_def createSegment_def setKey_def getLastSegment_def
          Let_def GetLength_put Encode_put fs fw g)
qed

lemma getPos_last:
  assumes "segments db \<noteq> []" and "index (last (segments db)) k = Some pos"
  shows "getPos db k = Inr \<lparr>segment = last (segments db), position = pos\<rparr>"
proof -
  from assms(1) obtain ss s where ss: "segments db = ss @ [s]"
    by (metis append_butlast_last_id)
  with assms(2) show ?thesis by (simp add: getPos_def)
qed

lemma Put_db_open:
  assumes "db_open st"
  shows "\<exists>st' pos. Put k v st = (None, st') \<and> db_open st'
     \<and> getPos (fst st') k = Inr \<lparr>segment = last (segments (fst st')), position = pos\<rparr>
     \<and> (length k + length v + 52 < 4294967296 \<longrightarrow>
          stored_at (snd st') (filePath (last (segments (fst st')))) pos k v (calculateHash v))"
proof -
  obtain db d where st: "st = (db, d)" by (cases st)
  let ?f = "filePath (last (segments db))"
  let ?enc = "frame k v (calculateHash v)"
  from assms st have op: "db_open (db, d)" by simp
  then obtain c where c: "map_of d ?f = Some c" and ne: "segments db \<noteq> []"
    by (auto simp add: db_open_def)
  show ?thesis
  proof (cases "int (length c) + int (length k + length v + 52) > segmentSize db")
    case False
    let ?db' = "db\<lparr>segments := butlast (segments db)
                @ [(last (segments db))\<lparr>index := (index (last (segments db)))(k \<mapsto> int (length c))\<rparr>]\<rparr>"
    let ?d' = "Write ?f ?enc d"
    from Put_append[OF op c False] have p: "Put k v st = (None, (?db', ?d'))" using st by simp
    have l: "last (segments ?db') = (last (segments db))\<lparr>index := (index (last (segments db)))(k \<mapsto> int (length c))\<rparr>"
      by simp
    have o: "out db = Some ?f" using op by (simp add: db_open_def)
    have 1: "db_open (?db', ?d')"
      using o c by (simp add: db_open_def map_of_Write)
    have 2: "getPos ?db' k = Inr \<lparr>segment = last (segments ?db'), position = int (length c)\<rparr>"
      by (rule getPos_last) simp_all
    have 3: "length k + length v + 52 < 4294967296 \<longrightarrow>
          stored_at ?d' (filePath (last (segments ?db'))) (int (length c)) k v (calculateHash v)"
      using stored_at_Write_new[OF c, of k v "calculateHash v"] by simp
    from p 1 2 3 show ?thesis by (intro exI[of _ "(?db', ?d')"] exI[of _ "int (length c)"]) simp
  next
    case True
    define f' where "f' = outFileName @ format_int (lastSegmentIndex db + 1)"
    define c' where "c' = (case map_of d f' of None \<Rightarrow> [] | Some x \<Rightarrow> x)"
    let ?db' = "db\<lparr>lastSegmentIndex := lastSegmentIndex db + 1, out := Some f',
                segments := segments db @ [\<lparr>index = [k \<mapsto> int (length c')], filePath = f'\<rparr>]\<rparr>"
    let ?d' = "Write f' ?enc (OpenFile_create f' d)"
    from Put_rollover[OF op c True f'_def c'_def] have p: "Put k v st = (None, (?db', ?d'))"
      using st by simp
    have m: "map_of (OpenFile_create f' d) f' = Some c'"
      by (simp add: c'_def map_of_OpenFile_create split: option.splits)
    have 1: "db_open (?db', ?d')"
      using m by (simp add: db_open_def map_of_Write)
    have 2: "getPos ?db' k = Inr \<lparr>segment = last (segments ?db'), position = int (length c')\<rparr>"
      by (rule getPos_last) simp_all
    have 3: "length k + length v + 52 < 4294967296 \<longrightarrow>
          stored_at ?d' (filePath (last (segments ?db'))) (int (length c')) k v (calculateHash v)"
      using stored_at_Write_new[OF m, of k v "calculateHash v"] by simp
    from p 1 2 3 show ?thesis by (intro exI[of _ "(?db', ?d')"] exI[of _ "int (length c')"]) simp
  qed
qed

lemma Get_val_bound:
  assumes "Get k st = Inr v"
  shows "length v < 4294967296"
proof -
  obtain db d where st: "st = (db, d)" by (cases st)
  from assms st obtain kp where "getPos db k = Inr kp"
    and r: "bind_err (getFromSegment (segment kp) (position kp) d) (\<lambda>entry.
       if Entry_calculateHash entry \<noteq> hash entry then Inl ErrHashMismatch
       else Inr (val entry)) = Inr v"
    unfolding Get_def by (auto elim!: bind_err_InrE)
  from r obtain entry where g: "getFromSegment (segment kp) (position kp) d = Inr entry"
    and v: "v = val entry"
    by (auto elim!: bind_err_InrE split: if_splits)
  from g obtain data where "Decode data = Inr entry"
    by (auto simp add: getFromSegment_def split: option.splits if_splits prod.splits sum.splits)
  from Decode_bounds(2)[OF this] v show ?thesis by simp
qed

subsection \<open>Latest wins\<close>

lemma stored_at_OpenFile_create:
  assumes "stored_at d path pos k v h"
  shows "stored_at (OpenFile_create p d) path pos k v h"
proof -
  from assms obtain c where "map_of d path = Some c" by (rule stored_atD)
  hence "map_of (OpenFile_create p d) path = map_of d path"
    by (auto simp add: map_of_OpenFile_create)
  with assms show ?thesis by (rule stored_at_cong)
qed

lemma getPos_from_split:
  assumes "getPos_from ss k = Inr kp"
  shows "\<exists>pre post. ss = pre @ [segment kp] @ post \<and> (\<forall>s \<in> set pre. index s k = None)
           \<and> index (segment kp) k = Some (position kp)"
  using assms
proof (induction ss)
  case Nil
  thus ?case by simp
next
  case (Cons s ss)
  show ?case
  proof (cases "index s k")
    case None
    with Cons.prems have "getPos_from ss k = Inr kp" by simp
    from Cons.IH[OF this] obtain pre post where "ss = pre @ [segment kp] @ post"
      and "\<forall>s \<in> set pre. index s k = None" and "index (segment kp) k = Some (position kp)"
      by blast
    with None show ?thesis by (intro exI[of _ "s # pre"] exI[of _ post]) simp
  next
    case (Some pos)
    with Cons.prems have "kp = \<lparr>segment = s, position = pos\<rparr>" by simp
    with Some show ?thesis by (intro exI[of _ "[]"] exI[of _ ss]) simp
  qed
qed

lemma getPos_split:
  assumes "getPos db k = Inr kp"
  shows "\<exists>older newer. segments db = older @ [segment kp] @ newer
           \<and> (\<forall>s \<in> set newer. index s k = None)
           \<and> index (segment kp) k = Some (position kp)"
proof -
  from assms have "getPos_from (rev (segments db)) k = Inr kp" by (simp add: getPos_def)
  from getPos_from_split[OF this] obtain pre post where r: "rev (segments db) = pre @ [segment kp] @ post"
    and n: "\<forall>s \<in> set pre. index s k = None" and i: "index (segment kp) k = Some (position kp)"
    by blast
  from arg_cong[OF r, of rev] have "segments db = rev post @ [segment kp] @ rev pre" by simp
  with n i show ?thesis by (intro exI[of _ "rev post"] exI[of _ "rev pre"]) simp
qed

lemma Put_other_key:
  assumes "db_open (db, d)" and "k' \<noteq> k" and "getPos db k = Inr kp"
    and "stored_at d (filePath (segment kp)) (position kp) k v h"
  shows "\<exists>db' d' kp'. Put k' v' (db, d) = (None, (db', d')) \<and> db_open (db', d')
     \<and> getPos db' k = Inr kp'
     \<and> stored_at d' (filePath (segment kp')) (position kp') k v h"
proof -
  let ?f = "filePath (last (segments db))"
  let ?enc = "frame k' v' (calculateHash v')"
  from assms(1) obtain c where c: "map_of d ?f = Some c" and ne: "segments db \<noteq> []"
    and o: "out db = Some ?f"
    by (auto simp add: db_open_def)
  from ne have segs: "segments db = butlast (segments db) @ [last (segments db)]" by simp
  have gp: "getPos_from (last (segments db) # rev (butlast (segments db))) k = Inr kp"
    using assms(3) segs unfolding getPos_def by (metis rev.simps(2) rev_rev_ident rev_swap)
  show ?thesis
  proof (cases "int (length c) + int (length k' + length v' + 52) > segmentSize db")
    case False
    let ?l' = "(last (segments db))\<lparr>index := (index (last (segments db)))(k' \<mapsto> int (length c))\<rparr>"
    let ?db' = "db\<lparr>segments := butlast (segments db) @ [?l']\<rparr>"
    let ?d' = "Write ?f ?enc d"
    from Put_append[OF assms(1) c False] have p: "Put k' v' (db, d) = (None, (?db', ?d'))" .
    have 1: "db_open (?db', ?d')" using o c by (simp add: db_open_def map_of_Write)
    have g': "getPos ?db' k = getPos_from (?l' # rev (butlast (segments db))) k"
      by (simp add: getPos_def)
    show ?thesis
    proof (cases "index (last (segments db)) k")
      case None
      with gp have "getPos_from (rev (butlast (segments db))) k = Inr kp" by simp
      with None assms(2) have 2: "getPos ?db' k = Inr kp" unfolding g' by simp
      have 3: "stored_at ?d' (filePath (segment kp)) (position kp) k v h"
        using assms(4) by (rule stored_at_Write_other)
      from p 1 2 3 show ?thesis by blast
    next
      case (Some pos)
      with gp have kp: "kp = \<lparr>segment = last (segments db), position = pos\<rparr>" by simp
      from Some assms(2) have 2: "getPos ?db' k = Inr \<lparr>segment = ?l', position = pos\<rparr>"
        unfolding g' by simp
      have "stored_at ?d' (filePath (segment kp)) (position kp) k v h"
        using assms(4) by (rule stored_at_Write_other)
      hence 3: "stored_at ?d' (filePath (segment \<lparr>segment = ?l', position = pos\<rparr>))
                  (position \<lparr>segment = ?l', position = pos\<rparr>) k v h"
        by (simp add: kp)
      from p 1 2 3 show ?thesis by blast
    qed
  next
    case True
    define f' where "f' = outFileName @ format_int (lastSegmentIndex db + 1)"
    define c' where "c' = (case map_of d f' of None \<Rightarrow> [] | Some x \<Rightarrow> x)"
    let ?db' = "db\<lparr>lastSegmentIndex := lastSegmentIndex db + 1, out := Some f',
                segments := segments db @ [\<lparr>index = [k' \<mapsto> int (length c')], filePath = f'\<rparr>]\<rparr>"
    let ?d' = "Write f' ?enc (OpenFile_create f' d)"
    from Put_rollover[OF assms(1) c True f'_def c'_def]
    have p: "Put k' v' (db, d) = (None, (?db', ?d'))" .
    have m: "map_of (OpenFile_create f' d) f' = Some c'"
      by (simp add: c'_def map_of_OpenFile_create split: option.splits)
    have 1: "db_open (?db', ?d')" using m by (simp add: db_open_def map_of_Write)
    have 2: "getPos ?db' k = Inr kp" using assms(2,3) by (simp add: getPos_def)
    have 3: "stored_at ?d' (filePath (segment kp)) (position kp) k v h"
      using assms(4) by (intro stored_at_Write_other stored_at_OpenFile_create)
    from p 1 2 3 show ?thesis by blast
  qed
qed

lemma puts_other_keys:
  assumes "db_open (db, d)" and "\<forall>(k', v') \<in> set kvs. k' \<noteq> k" and "getPos db k = Inr kp"
    and "stored_at d (filePath (segment kp)) (position kp) k v h"
  shows "\<exists>db' d' kp'. puts kvs (db, d) = (None, (db', d')) \<and> db_open (db', d')
     \<and> getPos db' k = Inr kp'
     \<and> stored_at d' (filePath (segment kp')) (position kp') k v h"
  using assms
proof (induction kvs arbitrary: db d kp)
  case Nil
  thus ?case by simp
next
  case (Cons kv kvs)
  obtain k' v' where kv: "kv = (k', v')" by (cases kv)
  with Cons.prems(2) have ne: "k' \<noteq> k" and rest: "\<forall>(k', v') \<in> set kvs. k' \<noteq> k" by simp_all
  from Put_other_key[OF Cons.prems(1) ne Cons.prems(3,4), of v'] obtain db1 d1 kp1 where
    p: "Put k' v' (db, d) = (None, (db1, d1))" and o: "db_open (db1, d1)"
    and g: "getPos db1 k = Inr kp1"
    and s: "stored_at d1 (filePath (segment kp1)) (position kp1) k v h" by blast
  from Cons.IH[OF o rest g s] p kv show ?case by simp
qed

lemma puts_db_open:
  assumes "db_open st"
  shows "\<exists>st'. puts kvs st = (None, st') \<and> db_open st'"
  using assms
proof (induction kvs arbitrary: st)
  case Nil
  thus ?case by simp
next
  case (Cons kv kvs)
  obtain k v where kv: "kv = (k, v)" by (cases kv)
  from Put_db_open[OF Cons.prems, of k v] obtain st1 where
    p: "Put k v st = (None, st1)" and o: "db_open st1" by blast
  from Cons.IH[OF o] p kv show ?case by simp
qed

text \<open>
  C6 (amended). On an open database, for every key \<open>k\<close> and values \<open>v1\<close>, \<open>v2\<close> such
  that the frame of \<open>(k, v2)\<close> fits the 32-bit size field
  (\<open>length k + length v2 + 52 < 2^32\<close>): \<open>Put(k, v1)\<close>, then any puts \<open>between\<close>, then
  \<open>Put(k, v2)\<close>, then any puts \<open>after\<close> to keys other than \<open>k\<close> are all acknowledged
  with \<open>nil\<close>, and afterwards \<open>Get(k)\<close> returns \<open>v2\<close>. The lookup scans the segments from
  the newest to the oldest: its hit \<open>kp\<close> is in the newest segment whose index has \<open>k\<close>
  (no segment after it in the roster has the key, whether that segment is still the active
  one or was sealed by the later puts), and the index of that segment holds the offset of
  the record appended last for \<open>k\<close>, the frame of \<open>v2\<close>. With no puts after
  \<open>Put(k, v2)\<close> the hit is in the last segment.
\<close>

theorem put_put_get:
  assumes "db_open st" and "length k + length v2 + 52 < 4294967296"
    and "\<forall>(k', v') \<in> set after. k' \<noteq> k"
  shows "\<exists>st1 st2 st3 st4 kp older newer.
       Put k v1 st = (None, st1) \<and> puts between st1 = (None, st2)
     \<and> Put k v2 st2 = (None, st3) \<and> puts after st3 = (None, st4)
     \<and> Get k st4 = Inr v2
     \<and> getPos (fst st4) k = Inr kp
     \<and> segments (fst st4) = older @ [segment kp] @ newer
     \<and> (\<forall>s \<in> set newer. index s k = None)
     \<and> index (segment kp) k = Some (position kp)
     \<and> stored_at (snd st4) (filePath (segment kp)) (position kp) k v2 (calculateHash v2)
     \<and> (after = [] \<longrightarrow> segment kp = last (segments (fst st4)))"
proof -
  from Put_db_open[OF assms(1), of k v1] obtain st1 where
    p1: "Put k v1 st = (None, st1)" and o1: "db_open st1" by blast
  from puts_db_open[OF o1, of between] obtain st2 where
    p2: "puts between st1 = (None, st2)" and o2: "db_open st2" by blast
  from Put_db_open[OF o2, of k v2] assms(2) obtain st3 pos where
    p3: "Put k v2 st2 = (None, st3)" and o3: "db_open st3"
    and g3: "getPos (fst st3) k = Inr \<lparr>segment = last (segments (fst st3)), position = pos\<rparr>"
    and s3: "stored_at (snd st3) (filePath (last (segments (fst st3)))) pos k v2 (calculateHash v2)"
    by blast
  obtain db3 d3 where st3: "st3 = (db3, d3)" by (cases st3)
  from puts_other_keys[of db3 d3 after k "\<lparr>segment = last (segments db3), position = pos\<rparr>"
         v2 "calculateHash v2"] o3 assms(3) g3 s3 st3
  obtain db4 d4 kp where p4: "puts after st3 = (None, (db4, d4))"
    and g4: "getPos db4 k = Inr kp"
    and s4: "stored_at d4 (filePath (segment kp)) (position kp) k v2 (calculateHash v2)"
    by auto
  from Get_stored[of db4 k kp d4 k v2 "calculateHash v2", OF g4 s4]
  have get: "Get k (db4, d4) = Inr v2" by (simp add: calculateHash_def)
  from getPos_split[OF g4] obtain older newer where
    "segments db4 = older @ [segment kp] @ newer" "\<forall>s \<in> set newer. index s k = None"
    "index (segment kp) k = Some (position kp)" by blast
  moreover have "after = [] \<longrightarrow> segment kp = last (segments (fst (db4, d4)))"
  proof
    assume "after = []"
    with p4 have "st3 = (db4, d4)" by simp
    with g3 g4 show "segment kp = last (segments (fst (db4, d4)))" by auto
  qed
  ultimately show ?thesis using p1 p2 p3 p4 get g4 s4
    by (intro exI[of _ st1] exI[of _ st2] exI[of _ st3] exI[of _ "(db4, d4)"] exI[of _ kp]
          exI[of _ older] exI[of _ newer]) simp
qed

theorem put_put_get_witness:
  "\<exists>st1 st2 st3 st4 kp older newer.
     Put ''k'' ''old'' (\<lparr>out = Some ''current-data0'', segmentSize = 100, lastSegmentIndex = 0,
        segments = [\<lparr>index = Map.empty, filePath = ''current-data0''\<rparr>]\<rparr>,
      [(''current-data0'', [])]) = (None, st1)
     \<and> puts [] st1 = (None, st2)
     \<and> Put ''k'' ''new'' st2 = (None, st3)
     \<and> puts [(''other'', ''value'')] st3 = (None, st4)
     \<and> Get ''k'' st4 = Inr ''new''
     \<and> getPos (fst st4) ''k'' = Inr kp
     \<and> segments (fst st4) = older @ [segment kp] @ newer
     \<and> (\<forall>s \<in> set newer. index s ''k'' = None)
     \<and> index (segment kp) ''k'' = Some (position kp)
     \<and> stored_at (snd st4) (filePath (segment kp)) (position kp) ''k'' ''new''
          (calculateHash ''new'')"
proof -
  have o: "db_open (\<lparr>out = Some ''current-data0'', segmentSize = 100, lastSegmentIndex = 0,
        segments = [\<lparr>index = Map.empty, filePath = ''current-data0''\<rparr>]\<rparr>,
      [(''current-data0'', [])])"
    by (simp add: db_open_def)
  have b: "length ''k'' + length ''new'' + 52 < (4294967296::nat)" by simp
  have n: "\<forall>(k', v') \<in> set [(''other'', ''value'')]. k' \<noteq> ''k''" by simp
  from put_put_get[OF o b n, of "''old''" "[]"] show ?thesis by blast
qed

subsection \<open>Opening an empty directory\<close>

lemma char_of_48: "char_of (48::nat) = CHR ''0''"
proof -
  have "(of_char (char_of (48::nat)) :: nat) = of_char (CHR ''0'')" by simp
  thus ?thesis by (rule of_char_eqI)
qed

lemma format_int_0: "format_int 0 = ''0''"
  by (simp add: format_int_def format_nat.simps char_of_48)

lemma NewDb_empty:
  "NewDb [] sz = Some (Inr (\<lparr>out = Some ''current-data0'', segmentSize = sz, lastSegmentIndex = 0,
        segments = [\<lparr>index = Map.empty, filePath = ''current-data0''\<rparr>]\<rparr>,
      [(''current-data0'', [])]))"
  by (simp add: NewDb_def recoverAll_def ReadDir_def createSegment_def generateNewFileName_def
        outFileName_def format_int_0 OpenFile_create_def Let_def)

theorem put_put_get_counterexample:
  "NewDb [] 100 = Some (Inr (\<lparr>out = Some ''current-data0'', segmentSize = 100, lastSegmentIndex = 0,
        segments = [\<lparr>index = Map.empty, filePath = ''current-data0''\<rparr>]\<rparr>,
      [(''current-data0'', [])]))
   \<and> fst (Put ''k'' ''v1'' (\<lparr>out = Some ''current-data0'', segmentSize = 100, lastSegmentIndex = 0,
        segments = [\<lparr>index = Map.empty, filePath = ''current-data0''\<rparr>]\<rparr>,
      [(''current-data0'', [])])) = None
   \<and> fst (Put ''k'' (replicate 4294967296 (CHR ''a''))
          (snd (Put ''k'' ''v1'' (\<lparr>out = Some ''current-data0'', segmentSize = 100, lastSegmentIndex = 0,
        segments = [\<lparr>index = Map.empty, filePath = ''current-data0''\<rparr>]\<rparr>,
      [(''current-data0'', [])])))) = None
   \<and> Get ''k'' (snd (Put ''k'' (replicate 4294967296 (CHR ''a''))
          (snd (Put ''k'' ''v1'' (\<lparr>out = Some ''current-data0'', segmentSize = 100, lastSegmentIndex = 0,
        segments = [\<lparr>index = Map.empty, filePath = ''current-data0''\<rparr>]\<rparr>,
      [(''current-data0'', [])])))))
       \<noteq> Inr (replicate 4294967296 (CHR ''a''))"
proof -
  let ?st0 = "(\<lparr>out = Some ''current-data0'', segmentSize = 100, lastSegmentIndex = 0,
        segments = [\<lparr>index = Map.empty, filePath = ''current-data0''\<rparr>]\<rparr>,
      [(''current-data0'', [])])"
  let ?big = "replicate 4294967296 (CHR ''a'')"
  have o: "db_open ?st0" by (simp add: db_open_def)
  from Put_db_open[OF o, of "''k''" "''v1''"] obtain st1 where
    p1: "Put ''k'' ''v1'' ?st0 = (None, st1)" and o1: "db_open st1" by blast
  from Put_db_open[OF o1, of "''k''" ?big] obtain st2 where
    p2: "Put ''k'' ?big st1 = (None, st2)" by blast
  have g: "Get ''k'' st2 \<noteq> Inr ?big"
  proof
    assume "Get ''k'' st2 = Inr ?big"
    from Get_val_bound[OF this] show False by (simp only: length_replicate less_irrefl)
  qed
  have a: "fst (Put ''k'' ''v1'' ?st0) = None" by (simp only: p1 fst_conv)
  have b: "fst (Put ''k'' ?big (snd (Put ''k'' ''v1'' ?st0))) = None"
    by (simp only: p1 p2 fst_conv snd_conv)
  have c: "Get ''k'' (snd (Put ''k'' ?big (snd (Put ''k'' ''v1'' ?st0)))) \<noteq> Inr ?big"
    unfolding p1 p2 snd_conv by (rule g)
  show ?thesis by (rule conjI[OF NewDb_empty conjI[OF a conjI[OF b c]]])
qed

subsection \<open>Segment file names\<close>

lemma parse_digits_append:
  "parse_digits (xs @ ys) acc =
     (case parse_digits xs acc of None \<Rightarrow> None | Some a \<Rightarrow> parse_digits ys a)"
  by (induction xs arbitrary: acc) simp_all

lemma digit_char:
  assumes "n < 10"
  shows "is_digit (char_of (48 + n))" and "(of_char (char_of (48 + n)) :: nat) - 48 = n"
    and "char_of (48 + n) \<noteq> CHR ''-''" and "char_of (48 + n) \<noteq> CHR ''+''"
proof -
  have v: "(of_char (char_of (48 + n)) :: nat) = 48 + n" using assms by simp
  show "is_digit (char_of (48 + n))" unfolding is_digit_def v using assms by simp
  show "(of_char (char_of (48 + n)) :: nat) - 48 = n" unfolding v by simp
  have "(of_char (char_of (48 + n)) :: nat) \<noteq> of_char (CHR ''-'')" unfolding v by simp
  thus "char_of (48 + n) \<noteq> CHR ''-''" by (metis of_char_eq_iff)
  have "(of_char (char_of (48 + n)) :: nat) \<noteq> of_char (CHR ''+'')" unfolding v by simp
  thus "char_of (48 + n) \<noteq> CHR ''+''" by (metis of_char_eq_iff)
qed

lemma parse_digits_format_nat: "parse_digits (format_nat n) 0 = Some n"
proof (induction n rule: format_nat.induct)
  case (1 n)
  show ?case
  proof (cases "n < 10")
    case True
    thus ?thesis using digit_char(1,2)[OF True] by (subst format_nat.simps) simp
  next
    case False
    have m: "n mod 10 < 10" by simp
    from 1[OF False] have "parse_digits (format_nat (n div 10)) 0 = Some (n div 10)" .
    thus ?thesis using False digit_char(1,2)[OF m]
      by (subst format_nat.simps) (simp add: parse_digits_append)
  qed
qed

lemma format_nat_hd:
  "\<exists>c cs. format_nat n = c # cs \<and> c \<noteq> CHR ''-'' \<and> c \<noteq> CHR ''+''"
proof (induction n rule: format_nat.induct)
  case (1 n)
  show ?case
  proof (cases "n < 10")
    case True
    thus ?thesis using digit_char(3,4)[OF True] by (subst format_nat.simps) simp
  next
    case False
    from 1[OF False] obtain c cs where "format_nat (n div 10) = c # cs"
      "c \<noteq> CHR ''-''" "c \<noteq> CHR ''+''" by blast
    thus ?thesis using False by (subst format_nat.simps) simp
  qed
qed

lemma Atoi_format_int: "Atoi (format_int i) = i"
proof (cases "i < 0")
  case True
  obtain c cs where "format_nat (nat (- i)) = c # cs" using format_nat_hd by blast
  hence "ParseUint (format_nat (nat (- i))) = Some (nat (- i))"
    using parse_digits_format_nat[of "nat (- i)"] by (simp add: ParseUint_def)
  thus ?thesis using True by (simp add: Atoi_def format_int_def)
next
  case False
  obtain c cs where f: "format_nat (nat i) = c # cs" "c \<noteq> CHR ''-''" "c \<noteq> CHR ''+''"
    using format_nat_hd by blast
  hence "ParseUint (c # cs) = Some (nat i)"
    using parse_digits_format_nat[of "nat i"] by (simp add: ParseUint_def)
  thus ?thesis using False f by (simp add: Atoi_def format_int_def)
qed

lemma HasPrefix_append [simp]: "HasPrefix (p @ x) p"
  by (simp add: HasPrefix_def)

lemma segment_number_name [simp]: "segment_number (outFileName @ format_int i) = i"
  by (simp add: segment_number_def TrimPrefix_def Atoi_format_int)

lemma segment_number_generate:
  "segment_number (generateNewFileName db) = lastSegmentIndex db"
  by (simp add: generateNewFileName_def)

subsection \<open>The roster invariant\<close>

lemma roster_ok_fresh:
  "roster_ok (\<lparr>out = Some ''current-data0'', segmentSize = sz, lastSegmentIndex = 0,
        segments = [\<lparr>index = Map.empty, filePath = ''current-data0''\<rparr>]\<rparr>,
      [(''current-data0'', [])])"
proof -
  have "''current-data0'' = outFileName @ format_int 0"
    by (simp add: outFileName_def format_int_0)
  hence "segment_number ''current-data0'' = 0" by (simp only: segment_number_name)
  thus ?thesis by (simp add: roster_ok_def db_open_def)
qed

lemma roster_okD:
  assumes "roster_ok (db, d)"
  shows "db_open (db, d)" and "distinct (map filePath (segments db))" and "distinct (map fst d)"
    and "set (map fst d) = set (map filePath (segments db))"
    and "\<And>s. s \<in> set (segments db) \<Longrightarrow> segment_number (filePath s) \<le> lastSegmentIndex db"
    and "segments db \<noteq> []" and "out db = Some (filePath (last (segments db)))"
    and "length d = length (segments db)"
proof -
  from assms show 1: "db_open (db, d)" and 2: "distinct (map filePath (segments db))"
    and 3: "distinct (map fst d)" and 4: "set (map fst d) = set (map filePath (segments db))"
    by (simp_all add: roster_ok_def)
  from assms show "\<And>s. s \<in> set (segments db) \<Longrightarrow> segment_number (filePath s) \<le> lastSegmentIndex db"
    by (simp add: roster_ok_def)
  from 1 show "segments db \<noteq> []" and "out db = Some (filePath (last (segments db)))"
    by (simp_all add: db_open_def)
  from 2 3 4 have "length (map fst d) = length (map filePath (segments db))"
    by (metis distinct_card)
  thus "length d = length (segments db)" by simp
qed

lemma fresh_name:
  assumes "roster_ok (db, d)" and "f' = outFileName @ format_int (lastSegmentIndex db + 1)"
  shows "f' \<notin> set (map filePath (segments db))" and "map_of d f' = None"
proof -
  show n: "f' \<notin> set (map filePath (segments db))"
  proof
    assume "f' \<in> set (map filePath (segments db))"
    then obtain s where s: "s \<in> set (segments db)" and "filePath s = f'" by auto
    with roster_okD(5)[OF assms(1) s] assms(2) show False by simp
  qed
  with roster_okD(4)[OF assms(1)] have "f' \<notin> fst ` set d" by simp
  thus "map_of d f' = None" by (simp add: map_of_eq_None_iff)
qed

lemma update_snoc:
  "k \<notin> fst ` set d \<Longrightarrow> AList.update k v (d @ [(k, x)]) = d @ [(k, v)]"
  by (induction d) auto

lemma Put_open_rollover:
  assumes "db_open (db, d)" and "map_of d (filePath (last (segments db))) = Some c"
    and "int (length c) + int (length k + length v + 52) > segmentSize db"
    and "f' = outFileName @ format_int (lastSegmentIndex db + 1)"
    and n: "map_of d f' = None"
  shows "Put k v (db, d) =
     (None, (db\<lparr>lastSegmentIndex := lastSegmentIndex db + 1, out := Some f',
                segments := segments db @ [\<lparr>index = [k \<mapsto> 0], filePath = f'\<rparr>]\<rparr>,
             d @ [(f', frame k v (calculateHash v))]))"
proof -
  from n have c': "[] = (case map_of d f' of None \<Rightarrow> [] | Some x \<Rightarrow> x)" by simp
  have "f' \<notin> fst ` set d" using n by (simp add: map_of_eq_None_iff)
  hence w: "Write f' (frame k v (calculateHash v)) (OpenFile_create f' d)
          = d @ [(f', frame k v (calculateHash v))]"
    using n by (simp add: Write_def OpenFile_create_def update_snoc map_add_def)
  from Put_rollover[OF assms(1,2,3,4) c'] w
  show ?thesis by simp
qed

lemma Put_roster_rollover:
  assumes "roster_ok (db, d)" and "map_of d (filePath (last (segments db))) = Some c"
    and "int (length c) + int (length k + length v + 52) > segmentSize db"
    and "f' = outFileName @ format_int (lastSegmentIndex db + 1)"
  shows "Put k v (db, d) =
     (None, (db\<lparr>lastSegmentIndex := lastSegmentIndex db + 1, out := Some f',
                segments := segments db @ [\<lparr>index = [k \<mapsto> 0], filePath = f'\<rparr>]\<rparr>,
             d @ [(f', frame k v (calculateHash v))]))"
  using Put_open_rollover[OF roster_okD(1)[OF assms(1)] assms(2,3,4) fresh_name(2)[OF assms(1,4)]] .

subsection \<open>Puts keep the roster invariant\<close>

lemma Write_existing:
  "map_of d p = Some c \<Longrightarrow> Write p data d = AList.update p (c @ data) d"
  by (simp add: Write_def)

lemma map_filePath_set_last:
  assumes "ss \<noteq> []"
  shows "map filePath (butlast ss @ [(last ss)\<lparr>index := i\<rparr>]) = map filePath ss"
proof -
  from assms have "ss = butlast ss @ [last ss]" by simp
  hence "map filePath ss = map filePath (butlast ss) @ [filePath (last ss)]"
    by (metis list.simps(8,9) map_append)
  thus ?thesis by simp
qed

lemma Put_open_step:
  assumes "db_open (db, d)"
    and "map_of d (outFileName @ format_int (lastSegmentIndex db + 1)) = None"
  shows "\<exists>c. map_of d (filePath (last (segments db))) = Some c
    \<and> (segmentSize db < int (length c) + int (length k + length v + 52) \<longrightarrow>
         Put k v (db, d) =
           (None, (db\<lparr>lastSegmentIndex := lastSegmentIndex db + 1,
                      out := Some (outFileName @ format_int (lastSegmentIndex db + 1)),
                      segments := segments db @ [\<lparr>index = [k \<mapsto> 0],
                         filePath = outFileName @ format_int (lastSegmentIndex db + 1)\<rparr>]\<rparr>,
                   d @ [(outFileName @ format_int (lastSegmentIndex db + 1),
                         frame k v (calculateHash v))])))
    \<and> (int (length c) + int (length k + length v + 52) \<le> segmentSize db \<longrightarrow>
         Put k v (db, d) =
           (None, (db\<lparr>segments := butlast (segments db)
                      @ [(last (segments db))\<lparr>index := (index (last (segments db)))(k \<mapsto> int (length c))\<rparr>]\<rparr>,
                   AList.update (filePath (last (segments db))) (c @ frame k v (calculateHash v)) d)))"
proof -
  from assms(1) obtain c where c: "map_of d (filePath (last (segments db))) = Some c"
    by (auto simp add: db_open_def)
  have 1: "segmentSize db < int (length c) + int (length k + length v + 52) \<longrightarrow>
         Put k v (db, d) =
           (None, (db\<lparr>lastSegmentIndex := lastSegmentIndex db + 1,
                      out := Some (outFileName @ format_int (lastSegmentIndex db + 1)),
                      segments := segments db @ [\<lparr>index = [k \<mapsto> 0],
                         filePath = outFileName @ format_int (lastSegmentIndex db + 1)\<rparr>]\<rparr>,
                   d @ [(outFileName @ format_int (lastSegmentIndex db + 1),
                         frame k v (calculateHash v))]))"
    using Put_open_rollover[OF assms(1) c _ refl assms(2)] by blast
  have 2: "int (length c) + int (length k + length v + 52) \<le> segmentSize db \<longrightarrow>
         Put k v (db, d) =
           (None, (db\<lparr>segments := butlast (segments db)
                      @ [(last (segments db))\<lparr>index := (index (last (segments db)))(k \<mapsto> int (length c))\<rparr>]\<rparr>,
                   AList.update (filePath (last (segments db))) (c @ frame k v (calculateHash v)) d))"
  proof
    assume "int (length c) + int (length k + length v + 52) \<le> segmentSize db"
    hence "\<not> segmentSize db < int (length c) + int (length k + length v + 52)" by simp
    from Put_append[OF assms(1) c this] Write_existing[OF c]
    show "Put k v (db, d) =
           (None, (db\<lparr>segments := butlast (segments db)
                      @ [(last (segments db))\<lparr>index := (index (last (segments db)))(k \<mapsto> int (length c))\<rparr>]\<rparr>,
                   AList.update (filePath (last (segments db))) (c @ frame k v (calculateHash v)) d))" by simp
  qed
  from c 1 2 show ?thesis by blast
qed

lemma Put_step:
  assumes "roster_ok (db, d)"
  shows "\<exists>c. map_of d (filePath (last (segments db))) = Some c
    \<and> (segmentSize db < int (length c) + int (length k + length v + 52) \<longrightarrow>
         Put k v (db, d) =
           (None, (db\<lparr>lastSegmentIndex := lastSegmentIndex db + 1,
                      out := Some (outFileName @ format_int (lastSegmentIndex db + 1)),
                      segments := segments db @ [\<lparr>index = [k \<mapsto> 0],
                         filePath = outFileName @ format_int (lastSegmentIndex db + 1)\<rparr>]\<rparr>,
                   d @ [(outFileName @ format_int (lastSegmentIndex db + 1),
                         frame k v (calculateHash v))])))
    \<and> (int (length c) + int (length k + length v + 52) \<le> segmentSize db \<longrightarrow>
         Put k v (db, d) =
           (None, (db\<lparr>segments := butlast (segments db)
                      @ [(last (segments db))\<lparr>index := (index (last (segments db)))(k \<mapsto> int (length c))\<rparr>]\<rparr>,
                   AList.update (filePath (last (segments db))) (c @ frame k v (calculateHash v)) d)))"
  using Put_open_step[OF roster_okD(1)[OF assms] fresh_name(2)[OF assms refl]] .

lemma roster_okI:
  assumes "segments db \<noteq> []" and "out db = Some (filePath (last (segments db)))"
    and "map_of d (filePath (last (segments db))) = Some c"
    and "distinct (map filePath (segments db))" and "distinct (map fst d)"
    and "set (map fst d) = set (map filePath (segments db))"
    and "\<forall>p \<in> set (map filePath (segments db)). segment_number p \<le> lastSegmentIndex db"
  shows "roster_ok (db, d)"
  using assms by (simp add: roster_ok_def db_open_def)

lemma Put_roster_ok:
  assumes "roster_ok (db, d)"
  shows "\<exists>db' d'. Put k v (db, d) = (None, (db', d')) \<and> roster_ok (db', d')
           \<and> segmentSize db' = segmentSize db"
proof -
  let ?f = "filePath (last (segments db))"
  let ?n = "outFileName @ format_int (lastSegmentIndex db + 1)"
  note r = roster_okD[OF assms]
  from Put_step[OF assms, of k v] obtain c where c: "map_of d ?f = Some c"
    and roll: "segmentSize db < int (length c) + int (length k + length v + 52) \<longrightarrow>
         Put k v (db, d) =
           (None, (db\<lparr>lastSegmentIndex := lastSegmentIndex db + 1, out := Some ?n,
                      segments := segments db @ [\<lparr>index = [k \<mapsto> 0], filePath = ?n\<rparr>]\<rparr>,
                   d @ [(?n, frame k v (calculateHash v))]))"
    and app: "int (length c) + int (length k + length v + 52) \<le> segmentSize db \<longrightarrow>
         Put k v (db, d) =
           (None, (db\<lparr>segments := butlast (segments db)
                      @ [(last (segments db))\<lparr>index := (index (last (segments db)))(k \<mapsto> int (length c))\<rparr>]\<rparr>,
                   AList.update ?f (c @ frame k v (calculateHash v)) d))"
    by blast
  show ?thesis
  proof (cases "segmentSize db < int (length c) + int (length k + length v + 52)")
    case True
    note fr = fresh_name[OF assms refl]
    have "roster_ok (db\<lparr>lastSegmentIndex := lastSegmentIndex db + 1, out := Some ?n,
                      segments := segments db @ [\<lparr>index = [k \<mapsto> 0], filePath = ?n\<rparr>]\<rparr>,
                   d @ [(?n, frame k v (calculateHash v))])"
      using r(2,3,4) fr r(5)
      by (fastforce simp add: roster_ok_def db_open_def map_of_append map_add_def
            split: option.splits)
    with roll[THEN mp, OF True] show ?thesis by simp
  next
    case False
    hence le: "int (length c) + int (length k + length v + 52) \<le> segmentSize db" by simp
    have p: "?f \<in> fst ` set d" using c by (rule map_of_SomeD[THEN imageI[where f = fst], simplified])
    have nm: "map fst (AList.update ?f (c @ frame k v (calculateHash v)) d) = map fst d"
      using p by (simp add: update_keys)
    let ?segs' = "butlast (segments db)
                      @ [(last (segments db))\<lparr>index := (index (last (segments db)))(k \<mapsto> int (length c))\<rparr>]"
    let ?db' = "db\<lparr>segments := ?segs'\<rparr>"
    let ?d' = "AList.update ?f (c @ frame k v (calculateHash v)) d"
    have pths: "map filePath (segments ?db') = map filePath (segments db)"
      using map_filePath_set_last[OF r(6)] by simp
    have lf: "filePath (last (segments ?db')) = ?f" by simp
    have "roster_ok (?db', ?d')"
    proof (rule roster_okI)
      show "segments ?db' \<noteq> []" by simp
      show "out ?db' = Some (filePath (last (segments ?db')))" using r(7) by simp
      show "map_of ?d' (filePath (last (segments ?db'))) = Some (c @ frame k v (calculateHash v))"
        unfolding lf by (simp add: update_conv')
      show "distinct (map filePath (segments ?db'))" unfolding pths by (rule r(2))
      show "distinct (map fst ?d')" unfolding nm by (rule r(3))
      show "set (map fst ?d') = set (map filePath (segments ?db'))" unfolding pths nm by (rule r(4))
      show "\<forall>p \<in> set (map filePath (segments ?db')). segment_number p \<le> lastSegmentIndex ?db'"
        unfolding pths using r(5) by auto
    qed
    with app[THEN mp, OF le] show ?thesis by simp
  qed
qed

subsection \<open>Puts keep the indexes and the lookup in step with the files\<close>

lemma index_okI:
  assumes "\<And>s k pos. s \<in> set (segments db) \<Longrightarrow> index s k = Some pos \<Longrightarrow>
             \<exists>v. stored_at d (filePath s) pos k v (calculateHash v)"
  shows "index_ok (db, d)"
  using assms by (simp add: index_ok_def)

lemma index_okD:
  assumes "index_ok (db, d)" and "s \<in> set (segments db)" and "index s k = Some pos"
  shows "\<exists>v. stored_at d (filePath s) pos k v (calculateHash v)"
  using assms by (auto simp add: index_ok_def)

lemma agreesI:
  assumes "\<And>k e. getPos db k = Inl e \<Longrightarrow> m k = None"
    and "\<And>k kp. getPos db k = Inr kp \<Longrightarrow>
           \<exists>v. m k = Some v \<and> stored_at d (filePath (segment kp)) (position kp) k v (calculateHash v)"
  shows "agrees (db, d) m"
  unfolding agrees_def
proof
  fix k
  show "case getPos (fst (db, d)) k of
       Inl e \<Rightarrow> m k = None
     | Inr kp \<Rightarrow>
         (case m k of
            None \<Rightarrow> False
          | Some v \<Rightarrow> stored_at (snd (db, d)) (filePath (segment kp)) (position kp) k v
                        (calculateHash v))"
  proof (cases "getPos db k")
    case (Inl e)
    with assms(1) show ?thesis by simp
  next
    case (Inr kp)
    with assms(2)[OF Inr] show ?thesis by auto
  qed
qed

lemma agrees_InlD:
  assumes "agrees (db, d) m" and "getPos db k = Inl e"
  shows "m k = None"
  using assms(1)[unfolded agrees_def, rule_format, of k] assms(2) by simp

lemma agrees_InrD:
  assumes "agrees (db, d) m" and "getPos db k = Inr kp"
  shows "\<exists>v. m k = Some v \<and> stored_at d (filePath (segment kp)) (position kp) k v (calculateHash v)"
  using assms(1)[unfolded agrees_def, rule_format, of k] assms(2)
  by (cases "m k") simp_all

lemma agrees_Get:
  assumes "agrees (db, d) m"
  shows "Get k (db, d) = (case m k of None \<Rightarrow> Inl ErrNotFound | Some v \<Rightarrow> Inr v)"
proof (cases "getPos db k")
  case (Inl e)
  hence "e = ErrNotFound" by (simp add: getPos_def getPos_from_NotFound)
  moreover from agrees_InlD[OF assms Inl] have "m k = None" .
  ultimately show ?thesis using Inl by (simp add: Get_def)
next
  case (Inr kp)
  from agrees_InrD[OF assms Inr] obtain v where v: "m k = Some v"
    and s: "stored_at d (filePath (segment kp)) (position kp) k v (calculateHash v)" by blast
  from Get_stored[OF Inr s] v show ?thesis by (simp add: calculateHash_def)
qed

lemma map_of_snoc_fresh:
  assumes "map_of d n = None"
  shows "map_of (d @ [(n, x)]) p = (if p = n then Some x else map_of d p)"
  using assms by (simp add: map_of_append map_add_def split: option.splits)

lemma stored_at_fresh:
  "stored_at [(n, frame k v h)] n 0 k v h = (length k + length v + length h + 12 < 4294967296)"
  by (simp add: stored_at_def)

lemma Put_rollover_invariants:
  assumes r: "roster_ok (db, d)" and i: "index_ok (db, d)" and a: "agrees (db, d) m"
    and b: "length k + length v + 52 < 4294967296"
    and n: "n = outFileName @ format_int (lastSegmentIndex db + 1)"
    and db': "db' = db\<lparr>lastSegmentIndex := lastSegmentIndex db + 1, out := Some n,
                      segments := segments db @ [\<lparr>index = [k \<mapsto> 0], filePath = n\<rparr>]\<rparr>"
    and d': "d' = d @ [(n, frame k v (calculateHash v))]"
  shows "index_ok (db', d')" and "agrees (db', d') (m(k \<mapsto> v))"
proof -
  note fr = fresh_name[OF r n]
  have mo: "map_of d' p = (if p = n then Some (frame k v (calculateHash v)) else map_of d p)" for p
    unfolding d' by (rule map_of_snoc_fresh[OF fr(2)])
  have new: "stored_at d' n 0 k v (calculateHash v)"
    using b by (simp add: stored_at_def mo)
  have old: "stored_at d' (filePath s) pos k' v' h" if "s \<in> set (segments db)"
    and "stored_at d (filePath s) pos k' v' h" for s pos k' v' h
  proof -
    from that(1) fr(1) have "filePath s \<noteq> n" by auto
    hence "map_of d' (filePath s) = map_of d (filePath s)" by (simp add: mo)
    from stored_at_cong[OF that(2) this] show ?thesis .
  qed
  show "index_ok (db', d')"
  proof (rule index_okI)
    fix s k' pos assume s: "s \<in> set (segments db')" and ix: "index s k' = Some pos"
    from s db' have "s \<in> set (segments db) \<or> s = \<lparr>index = [k \<mapsto> 0], filePath = n\<rparr>" by auto
    thus "\<exists>v. stored_at d' (filePath s) pos k' v (calculateHash v)"
    proof
      assume s0: "s \<in> set (segments db)"
      from index_okD[OF i s0 ix] obtain v' where "stored_at d (filePath s) pos k' v' (calculateHash v')" ..
      from old[OF s0 this] show ?thesis ..
    next
      assume "s = \<lparr>index = [k \<mapsto> 0], filePath = n\<rparr>"
      with ix have "k' = k" "pos = 0" "filePath s = n" by (auto split: if_splits)
      with new show ?thesis by auto
    qed
  qed
  have gp: "getPos db' k' = (if k' = k then Inr \<lparr>segment = \<lparr>index = [k \<mapsto> 0], filePath = n\<rparr>, position = 0\<rparr>
                             else getPos db k')" for k'
    unfolding getPos_def db' by simp
  show "agrees (db', d') (m(k \<mapsto> v))"
  proof (rule agreesI)
    fix k' e assume "getPos db' k' = Inl e"
    hence "k' \<noteq> k" and "getPos db k' = Inl e" by (auto simp add: gp split: if_splits)
    with agrees_InlD[OF a] show "(m(k \<mapsto> v)) k' = None" by simp
  next
    fix k' kp assume g: "getPos db' k' = Inr kp"
    show "\<exists>va. (m(k \<mapsto> v)) k' = Some va
            \<and> stored_at d' (filePath (segment kp)) (position kp) k' va (calculateHash va)"
    proof (cases "k' = k")
      case True
      with g have "kp = \<lparr>segment = \<lparr>index = [k \<mapsto> 0], filePath = n\<rparr>, position = 0\<rparr>"
        by (simp add: gp)
      with new True show ?thesis by simp
    next
      case False
      with g have g0: "getPos db k' = Inr kp" by (simp add: gp)
      from agrees_InrD[OF a g0] obtain v' where v': "m k' = Some v'"
        and s: "stored_at d (filePath (segment kp)) (position kp) k' v' (calculateHash v')" by blast
      from getPos_from_Inr[of "rev (segments db)" k' kp] g0
      have "segment kp \<in> set (segments db)" by (simp add: getPos_def)
      from old[OF this s] v' False show ?thesis by simp
    qed
  qed
qed

lemma Put_append_invariants:
  assumes r: "roster_ok (db, d)" and i: "index_ok (db, d)" and a: "agrees (db, d) m"
    and b: "length k + length v + 52 < 4294967296"
    and c: "map_of d (filePath (last (segments db))) = Some c"
    and db': "db' = db\<lparr>segments := butlast (segments db)
                      @ [(last (segments db))\<lparr>index := (index (last (segments db)))(k \<mapsto> int (length c))\<rparr>]\<rparr>"
    and d': "d' = AList.update (filePath (last (segments db))) (c @ frame k v (calculateHash v)) d"
  shows "index_ok (db', d')" and "agrees (db', d') (m(k \<mapsto> v))"
proof -
  let ?f = "filePath (last (segments db))"
  let ?l = "last (segments db)"
  let ?l' = "?l\<lparr>index := (index ?l)(k \<mapsto> int (length c))\<rparr>"
  note ne = roster_okD(6)[OF r]
  have dw: "d' = Write ?f (frame k v (calculateHash v)) d"
    unfolding d' by (rule Write_existing[OF c, symmetric])
  have new: "stored_at d' ?f (int (length c)) k v (calculateHash v)"
    unfolding dw using stored_at_Write_new[OF c, of k v "calculateHash v"] b by simp
  have old: "stored_at d' p pos k' v' h" if "stored_at d p pos k' v' h" for p pos k' v' h
    unfolding dw using that by (rule stored_at_Write_other)
  have segs: "segments db = butlast (segments db) @ [?l]" using ne by simp
  have lin: "?l \<in> set (segments db)" using ne by simp
  show "index_ok (db', d')"
  proof (rule index_okI)
    fix s k' pos assume s: "s \<in> set (segments db')" and ix: "index s k' = Some pos"
    from s db' have "s \<in> set (butlast (segments db)) \<or> s = ?l'" by auto
    thus "\<exists>v. stored_at d' (filePath s) pos k' v (calculateHash v)"
    proof
      assume "s \<in> set (butlast (segments db))"
      hence s0: "s \<in> set (segments db)" by (rule in_set_butlastD)
      from index_okD[OF i s0 ix] obtain v' where "stored_at d (filePath s) pos k' v' (calculateHash v')" ..
      from old[OF this] show ?thesis ..
    next
      assume sl: "s = ?l'"
      show ?thesis
      proof (cases "k' = k")
        case True
        with ix sl have "pos = int (length c)" by simp
        with new True sl show ?thesis by auto
      next
        case False
        with ix sl have "index ?l k' = Some pos" by simp
        from index_okD[OF i lin this] obtain v' where "stored_at d ?f pos k' v' (calculateHash v')" ..
        from old[OF this] sl show ?thesis by auto
      qed
    qed
  qed
  have gp0: "getPos db k' = (case index ?l k' of Some pos \<Rightarrow> Inr \<lparr>segment = ?l, position = pos\<rparr>
                              | None \<Rightarrow> getPos_from (rev (butlast (segments db))) k')" for k'
    unfolding getPos_def by (subst segs) simp
  have gp: "getPos db' k' = (case index ?l' k' of Some pos \<Rightarrow> Inr \<lparr>segment = ?l', position = pos\<rparr>
                              | None \<Rightarrow> getPos_from (rev (butlast (segments db))) k')" for k'
    unfolding getPos_def db' by simp
  show "agrees (db', d') (m(k \<mapsto> v))"
  proof (rule agreesI)
    fix k' e assume g: "getPos db' k' = Inl e"
    hence k: "k' \<noteq> k" by (auto simp add: gp)
    with g have "getPos db k' = Inl e" by (simp add: gp gp0 split: option.splits)
    with agrees_InlD[OF a] k show "(m(k \<mapsto> v)) k' = None" by simp
  next
    fix k' kp assume g: "getPos db' k' = Inr kp"
    show "\<exists>va. (m(k \<mapsto> v)) k' = Some va
            \<and> stored_at d' (filePath (segment kp)) (position kp) k' va (calculateHash va)"
    proof (cases "k' = k")
      case True
      with g have "kp = \<lparr>segment = ?l', position = int (length c)\<rparr>" by (simp add: gp)
      with new True show ?thesis by simp
    next
      case False
      show ?thesis
      proof (cases "index ?l k'")
        case None
        with g False have g0: "getPos db k' = Inr kp" by (simp add: gp gp0)
        from agrees_InrD[OF a g0] obtain v' where v': "m k' = Some v'"
          and s: "stored_at d (filePath (segment kp)) (position kp) k' v' (calculateHash v')" by blast
        from old[OF s] v' False show ?thesis by simp
      next
        case (Some pos)
        with g False have kp: "kp = \<lparr>segment = ?l', position = pos\<rparr>" by (simp add: gp)
        from Some have g0: "getPos db k' = Inr \<lparr>segment = ?l, position = pos\<rparr>" by (simp add: gp0)
        from agrees_InrD[OF a g0] obtain v' where v': "m k' = Some v'"
          and s: "stored_at d ?f pos k' v' (calculateHash v')" by auto
        from old[OF s] v' False kp show ?thesis by simp
      qed
    qed
  qed
qed

lemma Put_invariants:
  assumes r: "roster_ok (db, d)" and i: "index_ok (db, d)" and a: "agrees (db, d) m"
    and b: "length k + length v + 52 < 4294967296"
  shows "\<exists>db' d'. Put k v (db, d) = (None, (db', d')) \<and> roster_ok (db', d')
           \<and> index_ok (db', d') \<and> agrees (db', d') (m(k \<mapsto> v))"
proof -
  from Put_roster_ok[OF r, of k v] obtain db' d' where
    p: "Put k v (db, d) = (None, (db', d'))" and r': "roster_ok (db', d')" by blast
  from Put_step[OF r, of k v] obtain c where c: "map_of d (filePath (last (segments db))) = Some c"
    and roll: "segmentSize db < int (length c) + int (length k + length v + 52) \<longrightarrow>
         Put k v (db, d) =
           (None, (db\<lparr>lastSegmentIndex := lastSegmentIndex db + 1,
                      out := Some (outFileName @ format_int (lastSegmentIndex db + 1)),
                      segments := segments db @ [\<lparr>index = [k \<mapsto> 0],
                         filePath = outFileName @ format_int (lastSegmentIndex db + 1)\<rparr>]\<rparr>,
                   d @ [(outFileName @ format_int (lastSegmentIndex db + 1),
                         frame k v (calculateHash v))]))"
    and app: "int (length c) + int (length k + length v + 52) \<le> segmentSize db \<longrightarrow>
         Put k v (db, d) =
           (None, (db\<lparr>segments := butlast (segments db)
                      @ [(last (segments db))\<lparr>index := (index (last (segments db)))(k \<mapsto> int (length c))\<rparr>]\<rparr>,
                   AList.update (filePath (last (segments db))) (c @ frame k v (calculateHash v)) d))"
    by blast
  have "index_ok (db', d') \<and> agrees (db', d') (m(k \<mapsto> v))"
  proof (cases "segmentSize db < int (length c) + int (length k + length v + 52)")
    case True
    from roll[THEN mp, OF True] p
    have "db' = db\<lparr>lastSegmentIndex := lastSegmentIndex db + 1,
                      out := Some (outFileName @ format_int (lastSegmentIndex db + 1)),
                      segments := segments db @ [\<lparr>index = [k \<mapsto> 0],
                         filePath = outFileName @ format_int (lastSegmentIndex db + 1)\<rparr>]\<rparr>"
      and "d' = d @ [(outFileName @ format_int (lastSegmentIndex db + 1), frame k v (calculateHash v))]"
      by simp_all
    from Put_rollover_invariants[OF r i a b refl this] show ?thesis by simp
  next
    case False
    hence "int (length c) + int (length k + length v + 52) \<le> segmentSize db" by simp
    from app[THEN mp, OF this] p
    have "db' = db\<lparr>segments := butlast (segments db)
                      @ [(last (segments db))\<lparr>index := (index (last (segments db)))(k \<mapsto> int (length c))\<rparr>]\<rparr>"
      and "d' = AList.update (filePath (last (segments db))) (c @ frame k v (calculateHash v)) d"
      by simp_all
    from Put_append_invariants[OF r i a b c this] show ?thesis by simp
  qed
  with p r' show ?thesis by blast
qed

lemma latest_Cons: "m ++ latest ((k, v) # kvs) = (m(k \<mapsto> v)) ++ latest kvs"
  by (rule ext) (simp add: latest_def map_of_append map_add_def split: option.splits)

lemma puts_invariants:
  assumes "roster_ok st" and "index_ok st" and "agrees st m"
    and "\<forall>(k, v) \<in> set kvs. length k + length v + 52 < 4294967296"
  shows "\<exists>st'. puts kvs st = (None, st') \<and> roster_ok st' \<and> index_ok st'
           \<and> agrees st' (m ++ latest kvs)"
  using assms
proof (induction kvs arbitrary: st m)
  case Nil
  thus ?case by (simp add: latest_def)
next
  case (Cons kv kvs)
  obtain k v where kv: "kv = (k, v)" by (cases kv)
  obtain db d where st: "st = (db, d)" by (cases st)
  from Cons.prems(4) kv have b: "length k + length v + 52 < 4294967296"
    and bs: "\<forall>(k, v) \<in> set kvs. length k + length v + 52 < 4294967296" by simp_all
  from Put_invariants[OF Cons.prems(1-3)[unfolded st] b] obtain db' d' where
    p: "Put k v (db, d) = (None, (db', d'))" and r: "roster_ok (db', d')"
    and i: "index_ok (db', d')" and a: "agrees (db', d') (m(k \<mapsto> v))" by blast
  from Cons.IH[OF r i a bs] obtain st' where "puts kvs (db', d') = (None, st')"
    "roster_ok st'" "index_ok st'" "agrees st' ((m(k \<mapsto> v)) ++ latest kvs)" by blast
  thus ?case using p kv st by (simp add: latest_Cons)
qed

lemma fresh_invariants:
  "index_ok (\<lparr>out = Some ''current-data0'', segmentSize = sz, lastSegmentIndex = 0,
        segments = [\<lparr>index = Map.empty, filePath = ''current-data0''\<rparr>]\<rparr>,
      [(''current-data0'', [])])"
  "agrees (\<lparr>out = Some ''current-data0'', segmentSize = sz, lastSegmentIndex = 0,
        segments = [\<lparr>index = Map.empty, filePath = ''current-data0''\<rparr>]\<rparr>,
      [(''current-data0'', [])]) Map.empty"
  by (simp_all add: index_ok_def agrees_def getPos_def)

subsection \<open>Compaction: the keys to keep\<close>

lemma keysToKeep_of_eq:
  "keysToKeep_of ss keep k =
     (case keep k of
        Some kp \<Rightarrow> Some kp
      | None \<Rightarrow> (case getPos_from ss k of Inl e \<Rightarrow> None | Inr kp \<Rightarrow> Some kp))"
proof (induction ss arbitrary: keep)
  case Nil
  show ?case by (simp split: option.splits)
next
  case (Cons s ss)
  show ?case by (simp add: Cons.IH split: option.splits)
qed

lemma keysToKeep_empty:
  "keysToKeep_of ss Map.empty k = (case getPos_from ss k of Inl e \<Rightarrow> None | Inr kp \<Rightarrow> Some kp)"
  by (simp add: keysToKeep_of_eq)

lemma stored_at_unique:
  assumes "stored_at d p pos k v h" and "stored_at d p pos k' v' h'"
  shows "k = k' \<and> v = v' \<and> h = h'"
proof -
  let ?s = "\<lparr>index = Map.empty, filePath = p\<rparr>"
  from getFromSegment_stored[of d ?s pos k v h] assms(1)
  have "getFromSegment ?s pos d = Inr \<lparr>key = k, val = v, hash = h\<rparr>" by simp
  moreover from getFromSegment_stored[of d ?s pos k' v' h'] assms(2)
  have "getFromSegment ?s pos d = Inr \<lparr>key = k', val = v', hash = h'\<rparr>" by simp
  ultimately show ?thesis by simp
qed

subsection \<open>Compaction: writing the new segment\<close>

lemma compact_write_ok:
  assumes keep: "\<And>k kp. keep k = Some kp \<Longrightarrow> filePath (segment kp) \<noteq> newf
           \<and> (\<exists>v. stored_at d (filePath (segment kp)) (position kp) k v (calculateHash v))"
    and inv: "compact_inv d newf keep (dc, idx, off)"
  shows "\<exists>dc' idx' off'. compact_write ks keep newf (dc, idx, off) = Inr (dc', idx', off')
           \<and> compact_inv d newf keep (dc', idx', off')
           \<and> dom idx' = dom idx \<union> (set ks \<inter> dom keep)"
  using inv
proof (induction ks arbitrary: dc idx off)
  case Nil
  thus ?case by simp
next
  case (Cons k ks)
  show ?case
  proof (cases "keep k")
    case None
    from Cons.IH[OF Cons.prems] obtain dc' idx' off' where
      "compact_write ks keep newf (dc, idx, off) = Inr (dc', idx', off')"
      "compact_inv d newf keep (dc', idx', off')" "dom idx' = dom idx \<union> (set ks \<inter> dom keep)"
      by blast
    thus ?thesis using None by auto
  next
    case (Some kp)
    from keep[OF Some] obtain v where ne: "filePath (segment kp) \<noteq> newf"
      and sd: "stored_at d (filePath (segment kp)) (position kp) k v (calculateHash v)" by blast
    from Cons.prems obtain content where ct: "map_of dc newf = Some content"
      and len: "int (length content) = off"
      and oth: "\<And>p. p \<noteq> newf \<Longrightarrow> map_of dc p = map_of d p"
      and nms: "map fst dc = map fst d @ [newf]"
      and ix: "\<And>k pos. idx k = Some pos \<Longrightarrow>
           (\<exists>kp v. keep k = Some kp
              \<and> stored_at d (filePath (segment kp)) (position kp) k v (calculateHash v)
              \<and> stored_at dc newf pos k v (calculateHash v))"
      unfolding compact_inv_def by auto
    from stored_at_cong[OF sd oth[OF ne]]
    have sc: "stored_at dc (filePath (segment kp)) (position kp) k v (calculateHash v)" .
    from getFromSegment_stored[OF sc]
    have g: "getFromSegment (segment kp) (position kp) dc
               = Inr \<lparr>key = k, val = v, hash = calculateHash v\<rparr>" .
    let ?enc = "frame k v (calculateHash v)"
    let ?dc1 = "Write newf ?enc dc"
    have b: "length k + length v + length (calculateHash v) + 12 < 4294967296"
      using sd by (simp add: stored_at_def)
    have enc: "fst (Encode (\<lparr>key = k, val = v, hash = calculateHash v\<rparr>\<lparr>key := k\<rparr>)) = ?enc"
      by (simp add: Encode_frame)
    have inv1: "compact_inv d newf keep (?dc1, idx(k \<mapsto> off), off + int (length ?enc))"
      unfolding compact_inv_def
    proof (simp only: prod.case, intro conjI allI impI)
      show "\<exists>content. map_of ?dc1 newf = Some content
              \<and> int (length content) = off + int (length ?enc)"
        using ct len by (simp add: map_of_Write)
    next
      fix p assume "p \<noteq> newf"
      thus "map_of ?dc1 p = map_of d p" using oth by (simp add: map_of_Write)
    next
      show "map fst ?dc1 = map fst d @ [newf]" using nms by (simp add: names_Write)
    next
      fix k' pos assume a: "(idx(k \<mapsto> off)) k' = Some pos"
      show "\<exists>kp v. keep k' = Some kp
              \<and> stored_at d (filePath (segment kp)) (position kp) k' v (calculateHash v)
              \<and> stored_at ?dc1 newf pos k' v (calculateHash v)"
      proof (cases "k' = k")
        case True
        with a have "pos = off" by simp
        hence "stored_at ?dc1 newf pos k v (calculateHash v)"
          using stored_at_Write_new[OF ct b] len by simp
        with Some sd True show ?thesis by blast
      next
        case False
        with a have "idx k' = Some pos" by simp
        from ix[OF this] obtain kp' v' where "keep k' = Some kp'"
          "stored_at d (filePath (segment kp')) (position kp') k' v' (calculateHash v')"
          "stored_at dc newf pos k' v' (calculateHash v')" by blast
        with stored_at_Write_other[of dc newf pos k' v' "calculateHash v'" newf ?enc]
        show ?thesis by blast
      qed
    qed
    from Cons.IH[OF inv1] obtain dc' idx' off' where
      cw: "compact_write ks keep newf (?dc1, idx(k \<mapsto> off), off + int (length ?enc))
             = Inr (dc', idx', off')"
      and i': "compact_inv d newf keep (dc', idx', off')"
      and dm: "dom idx' = dom (idx(k \<mapsto> off)) \<union> (set ks \<inter> dom keep)" by blast
    have "compact_write (k # ks) keep newf (dc, idx, off) = Inr (dc', idx', off')"
      using Some g enc cw by (simp add: Let_def)
    moreover have "dom idx' = dom idx \<union> (set (k # ks) \<inter> dom keep)"
      using dm Some by auto
    ultimately show ?thesis using i' by blast
  qed
qed

subsection \<open>Compaction: removing the old files\<close>

lemma map_of_fold_Remove:
  "map_of (fold Remove ps d) p = (if p \<in> set ps then None else map_of d p)"
  by (induction ps arbitrary: d) (simp_all add: map_of_Remove)

lemma names_fold_Remove:
  "map fst (fold Remove ps d) = filter (\<lambda>n. n \<notin> set ps) (map fst d)"
proof (induction ps arbitrary: d)
  case Nil
  show ?case by simp
next
  case (Cons p ps)
  have "filter (\<lambda>n. n \<notin> set ps) (removeAll p (map fst d))
          = filter (\<lambda>n. n \<notin> set (p # ps)) (map fst d)"
    by (induction d) auto
  thus ?case by (simp add: Cons.IH names_Remove)
qed

subsection \<open>Compaction: the result\<close>

lemma Compact_invariants:
  assumes r: "roster_ok (db, d)" and i: "index_ok (db, d)" and a: "agrees (db, d) m"
    and two: "2 \<le> length (segments db)"
    and ord: "dom (keysToKeep_of (rev (butlast (segments db))) Map.empty) \<subseteq> set ord"
    and newf: "newf = outFileName @ format_int (lastSegmentIndex db + 1)"
  shows "\<exists>newIndex d'.
     Compact ord (db, d) =
       (None, (db\<lparr>lastSegmentIndex := lastSegmentIndex db + 1,
                  segments := [\<lparr>index = newIndex, filePath = newf\<rparr>, last (segments db)]\<rparr>, d'))
     \<and> roster_ok (db\<lparr>lastSegmentIndex := lastSegmentIndex db + 1,
                  segments := [\<lparr>index = newIndex, filePath = newf\<rparr>, last (segments db)]\<rparr>, d')
     \<and> index_ok (db\<lparr>lastSegmentIndex := lastSegmentIndex db + 1,
                  segments := [\<lparr>index = newIndex, filePath = newf\<rparr>, last (segments db)]\<rparr>, d')
     \<and> agrees (db\<lparr>lastSegmentIndex := lastSegmentIndex db + 1,
                  segments := [\<lparr>index = newIndex, filePath = newf\<rparr>, last (segments db)]\<rparr>, d') m
     \<and> length d' = 2
     \<and> set (map fst d') = {newf, filePath (last (segments db))}
     \<and> newf \<noteq> filePath (last (segments db))
     \<and> map_of d' (filePath (last (segments db))) = map_of d (filePath (last (segments db)))
     \<and> (\<forall>k kp. getPos_from (rev (butlast (segments db))) k = Inr kp \<longrightarrow>
           (\<exists>pos v. newIndex k = Some pos
              \<and> stored_at d' newf pos k v (calculateHash v)
              \<and> stored_at d (filePath (segment kp)) (position kp) k v (calculateHash v)))"
proof -
  let ?sealed = "butlast (segments db)"
  let ?active = "last (segments db)"
  let ?f = "filePath ?active"
  let ?keep = "keysToKeep_of (rev ?sealed) Map.empty"
  let ?d1 = "OpenFile_create newf d"
  note ne = roster_okD(6)[OF r]
  note fr = fresh_name[OF r newf]
  have segs: "segments db = ?sealed @ [?active]" using ne by simp
  have paths: "map filePath (segments db) = map filePath ?sealed @ [?f]"
    by (subst segs) simp
  have act_in: "?active \<in> set (segments db)" using ne by simp
  have f_not_sealed: "?f \<notin> set (map filePath ?sealed)"
    using roster_okD(2)[OF r] unfolding paths by simp
  have newf_ne: "newf \<noteq> ?f" using fr(1) act_in by auto
  have newf_not_sealed: "newf \<notin> set (map filePath ?sealed)"
    using fr(1) unfolding paths by simp
  have d1: "?d1 = d @ [(newf, [])]" using fr(2) by (simp add: OpenFile_create_def)
  have keep_eq: "?keep k = (case getPos_from (rev ?sealed) k of Inl e \<Rightarrow> None | Inr kp \<Rightarrow> Some kp)" for k
    by (rule keysToKeep_empty)
  have keepD: "segment kp \<in> set ?sealed \<and> index (segment kp) k = Some (position kp)
               \<and> getPos_from (rev ?sealed) k = Inr kp" if "?keep k = Some kp" for k kp
  proof -
    from that have "getPos_from (rev ?sealed) k = Inr kp"
      by (simp add: keep_eq split: sum.splits)
    with getPos_from_Inr[OF this] show ?thesis by simp
  qed
  have keep: "filePath (segment kp) \<noteq> newf
           \<and> (\<exists>v. stored_at d (filePath (segment kp)) (position kp) k v (calculateHash v))"
    if "?keep k = Some kp" for k kp
  proof -
    from keepD[OF that] have s: "segment kp \<in> set ?sealed"
      and ix: "index (segment kp) k = Some (position kp)" by simp_all
    from s have s0: "segment kp \<in> set (segments db)" by (rule in_set_butlastD)
    from s newf_not_sealed have "filePath (segment kp) \<noteq> newf" by auto
    with index_okD[OF i s0 ix] show ?thesis by simp
  qed
  have inv0: "compact_inv d newf ?keep (?d1, Map.empty, 0)"
    unfolding compact_inv_def d1 using map_of_snoc_fresh[OF fr(2), of "[]"]
    by simp
  from compact_write_ok[of ?keep newf d, OF keep inv0, of ord]
  obtain d2 newIndex off where
    cw: "compact_write ord ?keep newf (?d1, Map.empty, 0) = Inr (d2, newIndex, off)"
    and inv: "compact_inv d newf ?keep (d2, newIndex, off)"
    and dm: "dom newIndex = dom (Map.empty :: hashIndex) \<union> (set ord \<inter> dom ?keep)" by blast
  from ord dm have dm': "dom newIndex = dom ?keep" by auto
  from inv obtain content where ct: "map_of d2 newf = Some content"
    and oth: "\<And>p. p \<noteq> newf \<Longrightarrow> map_of d2 p = map_of d p"
    and nms: "map fst d2 = map fst d @ [newf]"
    and ix: "\<And>k pos. newIndex k = Some pos \<Longrightarrow>
           (\<exists>kp v. ?keep k = Some kp
              \<and> stored_at d (filePath (segment kp)) (position kp) k v (calculateHash v)
              \<and> stored_at d2 newf pos k v (calculateHash v))"
    unfolding compact_inv_def by auto
  let ?d3 = "fold Remove (map filePath ?sealed) d2"
  let ?new = "\<lparr>index = newIndex, filePath = newf\<rparr>"
  let ?db' = "db\<lparr>lastSegmentIndex := lastSegmentIndex db + 1, segments := [?new, ?active]\<rparr>"
  have C: "Compact ord (db, d) = (None, (?db', ?d3))"
    using two cw newf by (simp add: Compact_def Let_def generateNewFileName_def)
  have m3: "map_of ?d3 p = (if p \<in> set (map filePath ?sealed) then None else map_of d2 p)" for p
    by (rule map_of_fold_Remove)
  have m3_new: "map_of ?d3 newf = map_of d2 newf" using newf_not_sealed by (simp only: m3 if_False)
  have m3_act: "map_of ?d3 ?f = map_of d ?f"
    using f_not_sealed oth[of ?f] newf_ne by (simp only: m3 if_False) simp
  have n3: "map fst ?d3 = filter (\<lambda>n. n \<notin> set (map filePath ?sealed)) (map fst d @ [newf])"
    unfolding names_fold_Remove nms ..
  have dist3: "distinct (map fst ?d3)"
    unfolding n3 using roster_okD(3)[OF r] fr(1) roster_okD(4)[OF r] by simp
  have set3: "set (map fst ?d3) = {newf, ?f}"
  proof -
    have "set (map fst ?d3) = (set (map fst d) \<union> {newf}) - set (map filePath ?sealed)"
      unfolding n3 by auto
    also have "\<dots> = (set (map filePath ?sealed) \<union> {?f} \<union> {newf}) - set (map filePath ?sealed)"
      unfolding roster_okD(4)[OF r] paths by simp
    also have "\<dots> = {newf, ?f}" using f_not_sealed newf_not_sealed by auto
    finally show ?thesis .
  qed
  have len3: "length ?d3 = 2"
  proof -
    have "length (map fst ?d3) = card (set (map fst ?d3))"
      using dist3 by (simp only: distinct_card)
    also have "\<dots> = 2" unfolding set3 using newf_ne by simp
    finally show ?thesis by simp
  qed
  from roster_okD(1)[OF r] obtain c where c: "map_of d ?f = Some c"
    by (auto simp add: db_open_def)
  have R: "roster_ok (?db', ?d3)"
  proof (rule roster_okI)
    show "segments ?db' \<noteq> []" by simp
    show "out ?db' = Some (filePath (last (segments ?db')))" using roster_okD(7)[OF r] by simp
    show "map_of ?d3 (filePath (last (segments ?db'))) = Some c" using m3_act c by simp
    show "distinct (map filePath (segments ?db'))" using newf_ne by simp
    show "distinct (map fst ?d3)" by (rule dist3)
    show "set (map fst ?d3) = set (map filePath (segments ?db'))" unfolding set3 by simp
    show "\<forall>p \<in> set (map filePath (segments ?db')). segment_number p \<le> lastSegmentIndex ?db'"
      using roster_okD(5)[OF r act_in] newf by simp
  qed
  have st_new: "stored_at ?d3 newf pos k v h" if "stored_at d2 newf pos k v h" for pos k v h
    using that m3_new by (rule stored_at_cong)
  have st_act: "stored_at ?d3 ?f pos k v h" if "stored_at d ?f pos k v h" for pos k v h
    using that m3_act by (rule stored_at_cong)
  have I: "index_ok (?db', ?d3)"
  proof (rule index_okI)
    fix s k pos assume s: "s \<in> set (segments ?db')" and x: "index s k = Some pos"
    from s have "s = ?new \<or> s = ?active" by auto
    thus "\<exists>v. stored_at ?d3 (filePath s) pos k v (calculateHash v)"
    proof
      assume sn: "s = ?new"
      with x have "newIndex k = Some pos" by simp
      from ix[OF this] obtain v where "stored_at d2 newf pos k v (calculateHash v)" by blast
      from st_new[OF this] sn show ?thesis by auto
    next
      assume sa: "s = ?active"
      from index_okD[OF i act_in x[unfolded sa]] obtain v where
        "stored_at d ?f pos k v (calculateHash v)" ..
      from st_act[OF this] sa show ?thesis by auto
    qed
  qed
  have gp0: "getPos db k = (case index ?active k of
                 Some pos \<Rightarrow> Inr \<lparr>segment = ?active, position = pos\<rparr>
               | None \<Rightarrow> getPos_from (rev ?sealed) k)" for k
    unfolding getPos_def by (subst segs) simp
  have gp: "getPos ?db' k = (case index ?active k of
                 Some pos \<Rightarrow> Inr \<lparr>segment = ?active, position = pos\<rparr>
               | None \<Rightarrow> (case newIndex k of
                    Some pos \<Rightarrow> Inr \<lparr>segment = ?new, position = pos\<rparr>
                  | None \<Rightarrow> Inl ErrNotFound))" for k
    unfolding getPos_def by (simp split: option.splits)
  have sealed_new: "\<exists>pos v. newIndex k = Some pos
              \<and> stored_at ?d3 newf pos k v (calculateHash v)
              \<and> stored_at d (filePath (segment kp)) (position kp) k v (calculateHash v)"
    if "getPos_from (rev ?sealed) k = Inr kp" for k kp
  proof -
    from that have kk: "?keep k = Some kp" by (simp add: keep_eq)
    hence "k \<in> dom newIndex" unfolding dm' by auto
    then obtain pos where p: "newIndex k = Some pos" by auto
    from ix[OF p] kk obtain v where
      "stored_at d (filePath (segment kp)) (position kp) k v (calculateHash v)"
      "stored_at d2 newf pos k v (calculateHash v)" by auto
    with st_new p show ?thesis by blast
  qed
  have A: "agrees (?db', ?d3) m"
  proof (rule agreesI)
    fix k e assume g: "getPos ?db' k = Inl e"
    hence na: "index ?active k = None" and nn: "newIndex k = None"
      by (auto simp add: gp split: option.splits)
    from nn have "k \<notin> dom ?keep" unfolding dm'[symmetric] by auto
    hence "?keep k = None" by auto
    then obtain e' where "getPos_from (rev ?sealed) k = Inl e'"
      by (auto simp add: keep_eq split: sum.splits)
    with na have "getPos db k = Inl e'" by (simp add: gp0)
    from agrees_InlD[OF a this] show "m k = None" .
  next
    fix k kp assume g: "getPos ?db' k = Inr kp"
    show "\<exists>v. m k = Some v \<and> stored_at ?d3 (filePath (segment kp)) (position kp) k v (calculateHash v)"
    proof (cases "index ?active k")
      case (Some pos)
      with g have kp: "kp = \<lparr>segment = ?active, position = pos\<rparr>" by (simp add: gp)
      from Some have "getPos db k = Inr \<lparr>segment = ?active, position = pos\<rparr>" by (simp add: gp0)
      from agrees_InrD[OF a this] obtain v where "m k = Some v"
        "stored_at d ?f pos k v (calculateHash v)" by auto
      with st_act kp show ?thesis by auto
    next
      case None
      with g obtain pos where p: "newIndex k = Some pos"
        and kp: "kp = \<lparr>segment = ?new, position = pos\<rparr>"
        by (auto simp add: gp split: option.splits)
      from ix[OF p] obtain kp0 v where k0: "?keep k = Some kp0"
        and s0: "stored_at d (filePath (segment kp0)) (position kp0) k v (calculateHash v)"
        and s2: "stored_at d2 newf pos k v (calculateHash v)" by blast
      from keepD[OF k0] None have "getPos db k = Inr kp0" by (simp add: gp0)
      from agrees_InrD[OF a this] obtain v' where mv: "m k = Some v'"
        and s': "stored_at d (filePath (segment kp0)) (position kp0) k v' (calculateHash v')" by blast
      from stored_at_unique[OF s0 s'] have "v = v'" by simp
      with mv st_new[OF s2] kp show ?thesis by simp
    qed
  qed
  from C R I A len3 set3 newf_ne m3_act sealed_new show ?thesis by blast
qed

subsection \<open>Compaction\<close>

text \<open>
  C2 (amended). Let \<open>(db, d)\<close> be reached from a freshly opened database by acknowledged
  puts of records that fit the 32-bit size field, and let \<open>ord\<close> be the order in which
  the run of \<open>Compact\<close> ranges over \<open>keysToKeep\<close>. With fewer than two segments
  \<open>Compact\<close> returns \<open>nil\<close> and changes nothing. With at least two it returns \<open>nil\<close>
  and leaves exactly two files: the unchanged file of the active segment, which stays the
  last segment of the roster, and one new file \<open>current-data<lastSegmentIndex + 1>\<close>
  whose index holds, for every key of a sealed segment, the offset of a frame with the
  value of the key's newest sealed record; and afterwards \<open>Get(k)\<close> returns the latest
  value put for every key \<open>k\<close> that was put (and \<open>ErrNotFound\<close> for the others).
\<close>

theorem compact_correct:
  assumes "NewDb [] sz = Some (Inr st0)" and "puts kvs st0 = (None, (db, d))"
    and "\<forall>(k, v) \<in> set kvs. length k + length v + 52 < 4294967296"
    and "distinct ord \<and> set ord = dom (keysToKeep_of (rev (butlast (segments db))) Map.empty)"
    and "newPath = outFileName @ format_int (lastSegmentIndex db + 1)"
  shows "(length (segments db) < 2 \<longrightarrow> Compact ord (db, d) = (None, (db, d)))
       \<and> (2 \<le> length (segments db) \<longrightarrow>
           (\<exists>newIndex d'.
             Compact ord (db, d) =
               (None, (db\<lparr>lastSegmentIndex := lastSegmentIndex db + 1,
                          segments := [\<lparr>index = newIndex, filePath = newPath\<rparr>,
                                       last (segments db)]\<rparr>, d'))
             \<and> length d' = 2
             \<and> set (map fst d') = {newPath, filePath (last (segments db))}
             \<and> newPath \<noteq> filePath (last (segments db))
             \<and> map_of d' (filePath (last (segments db))) = map_of d (filePath (last (segments db)))
             \<and> (\<forall>k kp. getPos_from (rev (butlast (segments db))) k = Inr kp \<longrightarrow>
                   (\<exists>pos v. newIndex k = Some pos
                      \<and> stored_at d' newPath pos k v (calculateHash v)
                      \<and> stored_at d (filePath (segment kp)) (position kp) k v (calculateHash v)))
             \<and> (\<forall>k. Get k (db\<lparr>lastSegmentIndex := lastSegmentIndex db + 1,
                               segments := [\<lparr>index = newIndex, filePath = newPath\<rparr>,
                                            last (segments db)]\<rparr>, d')
                      = (case latest kvs k of None \<Rightarrow> Inl ErrNotFound | Some v \<Rightarrow> Inr v))))"
proof -
  let ?st0 = "(\<lparr>out = Some ''current-data0'', segmentSize = sz, lastSegmentIndex = 0,
        segments = [\<lparr>index = Map.empty, filePath = ''current-data0''\<rparr>]\<rparr>,
      [(''current-data0'', [])])"
  from assms(1) have st0: "st0 = ?st0" by (simp add: NewDb_empty)
  from puts_invariants[OF roster_ok_fresh[of sz] fresh_invariants(1)[of sz]
      fresh_invariants(2)[of sz] assms(3)] assms(2) st0
  have r: "roster_ok (db, d)" and i: "index_ok (db, d)"
    and a: "agrees (db, d) (Map.empty ++ latest kvs)" by auto
  hence a': "agrees (db, d) (latest kvs)" by simp
  have one: "length (segments db) < 2 \<longrightarrow> Compact ord (db, d) = (None, (db, d))"
    by (simp add: Compact_def)
  have two: "2 \<le> length (segments db) \<longrightarrow>
           (\<exists>newIndex d'.
             Compact ord (db, d) =
               (None, (db\<lparr>lastSegmentIndex := lastSegmentIndex db + 1,
                          segments := [\<lparr>index = newIndex, filePath = newPath\<rparr>,
                                       last (segments db)]\<rparr>, d'))
             \<and> length d' = 2
             \<and> set (map fst d') = {newPath, filePath (last (segments db))}
             \<and> newPath \<noteq> filePath (last (segments db))
             \<and> map_of d' (filePath (last (segments db))) = map_of d (filePath (last (segments db)))
             \<and> (\<forall>k kp. getPos_from (rev (butlast (segments db))) k = Inr kp \<longrightarrow>
                   (\<exists>pos v. newIndex k = Some pos
                      \<and> stored_at d' newPath pos k v (calculateHash v)
                      \<and> stored_at d (filePath (segment kp)) (position kp) k v (calculateHash v)))
             \<and> (\<forall>k. Get k (db\<lparr>lastSegmentIndex := lastSegmentIndex db + 1,
                               segments := [\<lparr>index = newIndex, filePath = newPath\<rparr>,
                                            last (segments db)]\<rparr>, d')
                      = (case latest kvs k of None \<Rightarrow> Inl ErrNotFound | Some v \<Rightarrow> Inr v)))"
  proof
    assume t: "2 \<le> length (segments db)"
    from assms(4) have o: "dom (keysToKeep_of (rev (butlast (segments db))) Map.empty) \<subseteq> set ord"
      by simp
    from Compact_invariants[OF r i a' t o assms(5)] obtain newIndex d' where
      C: "Compact ord (db, d) =
       (None, (db\<lparr>lastSegmentIndex := lastSegmentIndex db + 1,
                  segments := [\<lparr>index = newIndex, filePath = newPath\<rparr>, last (segments db)]\<rparr>, d'))"
      and A: "agrees (db\<lparr>lastSegmentIndex := lastSegmentIndex db + 1,
                  segments := [\<lparr>index = newIndex, filePath = newPath\<rparr>, last (segments db)]\<rparr>, d')
                (latest kvs)"
      and L: "length d' = 2"
      and S: "set (map fst d') = {newPath, filePath (last (segments db))}"
      and N: "newPath \<noteq> filePath (last (segments db))"
      and M: "map_of d' (filePath (last (segments db))) = map_of d (filePath (last (segments db)))"
      and K: "\<forall>k kp. getPos_from (rev (butlast (segments db))) k = Inr kp \<longrightarrow>
           (\<exists>pos v. newIndex k = Some pos
              \<and> stored_at d' newPath pos k v (calculateHash v)
              \<and> stored_at d (filePath (segment kp)) (position kp) k v (calculateHash v))"
      by blast
    have G: "\<forall>k. Get k (db\<lparr>lastSegmentIndex := lastSegmentIndex db + 1,
                               segments := [\<lparr>index = newIndex, filePath = newPath\<rparr>,
                                            last (segments db)]\<rparr>, d')
                      = (case latest kvs k of None \<Rightarrow> Inl ErrNotFound | Some v \<Rightarrow> Inr v)"
      using agrees_Get[OF A] by blast
    from C L S N M K G show "(\<exists>newIndex d'.
             Compact ord (db, d) =
               (None, (db\<lparr>lastSegmentIndex := lastSegmentIndex db + 1,
                          segments := [\<lparr>index = newIndex, filePath = newPath\<rparr>,
                                       last (segments db)]\<rparr>, d'))
             \<and> length d' = 2
             \<and> set (map fst d') = {newPath, filePath (last (segments db))}
             \<and> newPath \<noteq> filePath (last (segments db))
             \<and> map_of d' (filePath (last (segments db))) = map_of d (filePath (last (segments db)))
             \<and> (\<forall>k kp. getPos_from (rev (butlast (segments db))) k = Inr kp \<longrightarrow>
                   (\<exists>pos v. newIndex k = Some pos
                      \<and> stored_at d' newPath pos k v (calculateHash v)
                      \<and> stored_at d (filePath (segment kp)) (position kp) k v (calculateHash v)))
             \<and> (\<forall>k. Get k (db\<lparr>lastSegmentIndex := lastSegmentIndex db + 1,
                               segments := [\<lparr>index = newIndex, filePath = newPath\<rparr>,
                                            last (segments db)]\<rparr>, d')
                      = (case latest kvs k of None \<Rightarrow> Inl ErrNotFound | Some v \<Rightarrow> Inr v)))" by blast
  qed
  from one two show ?thesis ..
qed

subsection \<open>A small history: two puts of one key, compaction, reopening\<close>

lemma char_of_49: "char_of (49::nat) = CHR ''1''"
proof -
  have "(of_char (char_of (49::nat)) :: nat) = of_char (CHR ''1'')" by simp
  thus ?thesis by (rule of_char_eqI)
qed

lemma char_of_50: "char_of (50::nat) = CHR ''2''"
proof -
  have "(of_char (char_of (50::nat)) :: nat) = of_char (CHR ''2'')" by simp
  thus ?thesis by (rule of_char_eqI)
qed

lemma format_int_1: "format_int 1 = ''1''"
  by (simp add: format_int_def format_nat.simps char_of_49)

lemma format_int_2: "format_int 2 = ''2''"
  by (simp add: format_int_def format_nat.simps char_of_50)

lemma name_1: "outFileName @ format_int 1 = ''current-data1''"
  by (simp add: outFileName_def format_int_1)

lemma name_2: "outFileName @ format_int 2 = ''current-data2''"
  by (simp add: outFileName_def format_int_2)

lemma segment_number_1: "segment_number ''current-data1'' = 1"
  using segment_number_name[of 1] by (simp only: name_1)

lemma segment_number_2: "segment_number ''current-data2'' = 2"
  using segment_number_name[of 2] by (simp only: name_2)

lemma scan_Nil: "recoverSegment_scan [] idx off = Some (None, idx)"
  by (subst recoverSegment_scan.simps) (simp add: readNext_cases)

lemma scan_frame:
  assumes "length k + length v + length h + 12 < 4294967296"
  shows "recoverSegment_scan (frame k v h @ rest) idx off
           = recoverSegment_scan rest (idx(k \<mapsto> off)) (off + int (length (frame k v h)))"
  by (subst recoverSegment_scan.simps)
     (simp add: readNext_frame[OF assms] Decode_frame[OF assms])

lemma hist_open: "NewDb [] 100 = Some (Inr hist_st0)"
  unfolding hist_st0_def by (rule NewDb_empty)

lemma hist_put1: "Put ''k'' ''old'' hist_st0 = (None, hist_st1)"
proof -
  have o: "db_open hist_st0" by (simp add: hist_st0_def db_open_def)
  show ?thesis
    using Put_append[of "fst hist_st0" "snd hist_st0" "[]" "''k''" "''old''"] o
    by (simp add: hist_st0_def hist_st1_def Write_def)
qed

lemma hist_put2: "Put ''k'' ''new'' hist_st1 = (None, hist_st2)"
proof -
  have o: "db_open hist_st1" by (simp add: hist_st1_def db_open_def)
  show ?thesis
    using Put_rollover[of "fst hist_st1" "snd hist_st1"
        "frame ''k'' ''old'' (calculateHash ''old'')" "''k''" "''new''" "''current-data1''" "[]"] o
    by (simp add: hist_st1_def hist_st2_def name_1[simplified] Write_def OpenFile_create_def)
qed

lemma hist_puts: "puts [(''k'', ''old''), (''k'', ''new'')] hist_st0 = (None, hist_st2)"
  by (simp add: hist_put1 hist_put2)

lemma stored_at_head:
  assumes "map_of d p = Some (frame k v h @ rest)"
    and "length k + length v + length h + 12 < 4294967296"
  shows "stored_at d p 0 k v h"
  using assms by (simp add: stored_at_def)

lemma hist_compact: "Compact [''k''] hist_st2 = (None, hist_st3)"
proof -
  let ?s0 = "\<lparr>index = [''k'' \<mapsto> 0::int], filePath = ''current-data0''\<rparr>"
  let ?d1 = "[(''current-data0'', frame ''k'' ''old'' (calculateHash ''old'')),
       (''current-data1'', frame ''k'' ''new'' (calculateHash ''new'')),
       (''current-data2'', [])]"
  have "stored_at ?d1 (filePath ?s0) 0 ''k'' ''old'' (calculateHash ''old'')"
    by (rule stored_at_head[where rest = "[]"]) simp_all
  from getFromSegment_stored[OF this]
  have g: "getFromSegment ?s0 0 ?d1 = Inr \<lparr>key = ''k'', val = ''old'', hash = calculateHash ''old''\<rparr>" .
  have n: "generateNewFileName (fst hist_st2\<lparr>lastSegmentIndex := 2\<rparr>) = ''current-data2''"
    by (simp add: generateNewFileName_def name_2[simplified])
  show ?thesis
    using g n
    by (simp add: Compact_def hist_st2_def hist_st3_def Let_def OpenFile_create_def
          Encode_frame Write_def Remove_def)
qed

lemma hist_reopen: "NewDb (Close hist_st3) 100 = Some (Inr hist_st4)"
proof -
  have b1: "length ''k'' + length ''new'' + length (calculateHash ''new'') + 12 < (4294967296::nat)"
    by simp
  have b2: "length ''k'' + length ''old'' + length (calculateHash ''old'') + 12 < (4294967296::nat)"
    by simp
  have s1: "recoverSegment_scan (frame ''k'' ''new'' (calculateHash ''new'')) Map.empty 0
              = Some (None, [''k'' \<mapsto> 0])"
    using scan_frame[OF b1, of "[]" Map.empty 0] by (simp add: scan_Nil)
  have s2: "recoverSegment_scan (frame ''k'' ''old'' (calculateHash ''old'')) Map.empty 0
              = Some (None, [''k'' \<mapsto> 0])"
    using scan_frame[OF b2, of "[]" Map.empty 0] by (simp add: scan_Nil)
  show ?thesis
    by (simp add: NewDb_def Close_def hist_st3_def hist_st4_def recoverAll_def ReadDir_def
          HasPrefix_def outFileName_def segment_number_1 segment_number_2 recoverSegment_def
          s1 s2 getLastSegment_def Let_def)
qed

lemma hist_get3: "Get ''k'' hist_st3 = Inr ''new''"
proof -
  let ?s = "\<lparr>index = [''k'' \<mapsto> 0::int], filePath = ''current-data1''\<rparr>"
  have g: "getPos (fst hist_st3) ''k'' = Inr \<lparr>segment = ?s, position = 0\<rparr>"
    by (simp add: getPos_def hist_st3_def)
  have "stored_at (snd hist_st3) (filePath ?s) 0 ''k'' ''new'' (calculateHash ''new'')"
    by (rule stored_at_head[where rest = "[]"]) (simp_all add: hist_st3_def)
  from Get_stored[of "fst hist_st3" "''k''" _ "snd hist_st3", OF g] this
  show ?thesis by (simp add: calculateHash_def)
qed

lemma hist_get4: "Get ''k'' hist_st4 = Inr ''old''"
proof -
  let ?s = "\<lparr>index = [''k'' \<mapsto> 0::int], filePath = ''current-data2''\<rparr>"
  have g: "getPos (fst hist_st4) ''k'' = Inr \<lparr>segment = ?s, position = 0\<rparr>"
    by (simp add: getPos_def hist_st4_def)
  have "stored_at (snd hist_st4) (filePath ?s) 0 ''k'' ''old'' (calculateHash ''old'')"
    by (rule stored_at_head[where rest = "[]"]) (simp_all add: hist_st4_def)
  from Get_stored[of "fst hist_st4" "''k''" _ "snd hist_st4", OF g] this
  show ?thesis by (simp add: calculateHash_def)
qed

theorem compact_correct_witness:
  "\<exists>newIndex d'.
     Compact [''k''] (fst hist_st2, snd hist_st2) =
       (None, ((fst hist_st2)\<lparr>lastSegmentIndex := lastSegmentIndex (fst hist_st2) + 1,
                  segments := [\<lparr>index = newIndex,
                                 filePath = outFileName @ format_int (lastSegmentIndex (fst hist_st2) + 1)\<rparr>,
                               last (segments (fst hist_st2))]\<rparr>, d'))
     \<and> length d' = 2
     \<and> Get ''k'' ((fst hist_st2)\<lparr>lastSegmentIndex := lastSegmentIndex (fst hist_st2) + 1,
                  segments := [\<lparr>index = newIndex,
                                 filePath = outFileName @ format_int (lastSegmentIndex (fst hist_st2) + 1)\<rparr>,
                               last (segments (fst hist_st2))]\<rparr>, d') = Inr ''new''"
proof -
  have p: "puts [(''k'', ''old''), (''k'', ''new'')] hist_st0 = (None, (fst hist_st2, snd hist_st2))"
    using hist_puts by (simp only: prod.collapse)
  have b: "\<forall>(k, v) \<in> set [(''k'', ''old''), (''k'', ''new'')].
             length k + length v + 52 < (4294967296::nat)" by simp
  have keep: "keysToKeep_of (rev (butlast (segments (fst hist_st2)))) Map.empty
      = (\<lambda>k. if k = ''k''
              then Some \<lparr>segment = \<lparr>index = [''k'' \<mapsto> 0], filePath = ''current-data0''\<rparr>,
                          position = 0\<rparr>
              else None)"
    by (rule ext) (simp add: hist_st2_def keysToKeep_empty)
  have o: "distinct [''k''] \<and> set [''k'']
             = dom (keysToKeep_of (rev (butlast (segments (fst hist_st2)))) Map.empty)"
    unfolding keep by (simp add: dom_if)
  have t: "2 \<le> length (segments (fst hist_st2))" by (simp add: hist_st2_def)
  have l: "latest [(''k'', ''old''), (''k'', ''new'')] ''k'' = Some ''new''"
    by (simp add: latest_def)
  from conjunct2[OF compact_correct[OF hist_open p b o refl], THEN mp, OF t]
  obtain newIndex d' where
    C: "Compact [''k''] (fst hist_st2, snd hist_st2) =
       (None, ((fst hist_st2)\<lparr>lastSegmentIndex := lastSegmentIndex (fst hist_st2) + 1,
                  segments := [\<lparr>index = newIndex,
                                 filePath = outFileName @ format_int (lastSegmentIndex (fst hist_st2) + 1)\<rparr>,
                               last (segments (fst hist_st2))]\<rparr>, d'))"
    and L: "length d' = 2"
    and G: "\<forall>k. Get k ((fst hist_st2)\<lparr>lastSegmentIndex := lastSegmentIndex (fst hist_st2) + 1,
                  segments := [\<lparr>index = newIndex,
                                 filePath = outFileName @ format_int (lastSegmentIndex (fst hist_st2) + 1)\<rparr>,
                               last (segments (fst hist_st2))]\<rparr>, d')
              = (case latest [(''k'', ''old''), (''k'', ''new'')] k of
                   None \<Rightarrow> Inl ErrNotFound | Some v \<Rightarrow> Inr v)"
    by blast
  from G[rule_format, of "''k''"] l
  have G': "Get ''k'' ((fst hist_st2)\<lparr>lastSegmentIndex := lastSegmentIndex (fst hist_st2) + 1,
                  segments := [\<lparr>index = newIndex,
                                 filePath = outFileName @ format_int (lastSegmentIndex (fst hist_st2) + 1)\<rparr>,
                               last (segments (fst hist_st2))]\<rparr>, d') = Inr ''new''"
    by (simp only: option.case)
  from C L G' show ?thesis by blast
qed

theorem compact_correct_counterexample:
  "fst (puts [(''k'', replicate 4294967296 (CHR ''a''))] hist_st0) = None
   \<and> 2 \<le> length (segments (fst (snd (puts [(''k'', replicate 4294967296 (CHR ''a''))] hist_st0))))
   \<and> fst (Compact [] (snd (puts [(''k'', replicate 4294967296 (CHR ''a''))] hist_st0))) = None
   \<and> Get ''k'' (snd (Compact [] (snd (puts [(''k'', replicate 4294967296 (CHR ''a''))] hist_st0))))
       \<noteq> Inr (replicate 4294967296 (CHR ''a''))"
proof -
  define big where "big = replicate 4294967296 (CHR ''a'')"
  have lb: "length big = 4294967296" unfolding big_def by (simp only: length_replicate)
  let ?db0 = "fst hist_st0" and ?d0 = "snd hist_st0"
  let ?n = "outFileName @ format_int (lastSegmentIndex ?db0 + 1)"
  let ?st1 = "(?db0\<lparr>lastSegmentIndex := lastSegmentIndex ?db0 + 1, out := Some ?n,
                segments := segments ?db0 @ [\<lparr>index = [''k'' \<mapsto> 0], filePath = ?n\<rparr>]\<rparr>,
             ?d0 @ [(?n, frame ''k'' big (calculateHash big))])"
  have r: "roster_ok (?db0, ?d0)" using roster_ok_fresh[of 100] by (simp add: hist_st0_def)
  have c: "map_of ?d0 (filePath (last (segments ?db0))) = Some []" by (simp add: hist_st0_def)
  have g: "segmentSize ?db0 < int (length ([]::bytes)) + int (length ''k'' + length big + 52)"
    unfolding lb by (simp add: hist_st0_def)
  from Put_roster_rollover[OF r c g refl]
  have p1: "Put ''k'' big hist_st0 = (None, ?st1)" by simp
  hence ps: "puts [(''k'', big)] hist_st0 = (None, ?st1)" by simp
  have a: "fst (puts [(''k'', big)] hist_st0) = None" by (simp only: ps fst_conv)
  have b: "2 \<le> length (segments (fst (snd (puts [(''k'', big)] hist_st0))))"
    unfolding ps by (simp add: hist_st0_def)
  have cc: "fst (Compact [] (snd (puts [(''k'', big)] hist_st0))) = None"
    unfolding ps by (simp add: Compact_def Let_def hist_st0_def)
  have d: "Get ''k'' (snd (Compact [] (snd (puts [(''k'', big)] hist_st0)))) \<noteq> Inr big"
  proof
    assume "Get ''k'' (snd (Compact [] (snd (puts [(''k'', big)] hist_st0)))) = Inr big"
    from Get_val_bound[OF this] lb show False by simp
  qed
  show ?thesis unfolding big_def[symmetric] by (rule conjI[OF a conjI[OF b conjI[OF cc d]]])
qed

subsection \<open>Reopening after a compaction\<close>

text \<open>
  C1. On a fresh directory with \<open>segmentSize = 100\<close>: \<open>Put("k", "old")\<close>,
  \<open>Put("k", "new")\<close> and \<open>Compact()\<close> all return \<open>nil\<close>, and \<open>Get("k")\<close> returns
  \<open>"new"\<close>. After \<open>Close()\<close> and \<open>NewDb\<close> on the same directory, \<open>Get("k")\<close> returns
  \<open>"old"\<close>: \<open>Compact\<close> gave the compacted segment the file \<open>current-data2\<close>, numbered
  above the active file \<open>current-data1\<close>, and recovery orders the roster by file number, so
  the compacted (older) records shadow the active segment's.
\<close>

theorem reopen_after_compact_stale:
  "NewDb [] 100 = Some (Inr hist_st0)
   \<and> puts [(''k'', ''old''), (''k'', ''new'')] hist_st0 = (None, hist_st2)
   \<and> Compact [''k''] hist_st2 = (None, hist_st3)
   \<and> Get ''k'' hist_st3 = Inr ''new''
   \<and> NewDb (Close hist_st3) 100 = Some (Inr hist_st4)
   \<and> Get ''k'' hist_st4 = Inr ''old''"
  using hist_open hist_puts hist_compact hist_get3 hist_reopen hist_get4 by simp

subsection \<open>The invariant of the reachable states\<close>

lemma db_invD:
  assumes "db_inv (db, d)"
  shows "db_open (db, d)" and "distinct (map filePath (segments db))" and "distinct (map fst d)"
    and "set (map filePath (segments db)) \<subseteq> set (map fst d)"
    and "\<And>n. n \<in> set (map fst d) \<Longrightarrow> HasPrefix n outFileName
           \<Longrightarrow> segment_number n \<le> lastSegmentIndex db"
    and "segments db \<noteq> []" and "out db = Some (filePath (last (segments db)))"
proof -
  from assms show 1: "db_open (db, d)" and "distinct (map filePath (segments db))"
    and "distinct (map fst d)" and "set (map filePath (segments db)) \<subseteq> set (map fst d)"
    by (simp_all add: db_inv_def)
  from assms show "\<And>n. n \<in> set (map fst d) \<Longrightarrow> HasPrefix n outFileName
           \<Longrightarrow> segment_number n \<le> lastSegmentIndex db"
    by (auto simp add: db_inv_def)
  from 1 show "segments db \<noteq> []" and "out db = Some (filePath (last (segments db)))"
    by (simp_all add: db_open_def)
qed

lemma db_invI:
  assumes "segments db \<noteq> []" and "out db = Some (filePath (last (segments db)))"
    and "map_of d (filePath (last (segments db))) = Some c"
    and "distinct (map filePath (segments db))" and "distinct (map fst d)"
    and "set (map filePath (segments db)) \<subseteq> set (map fst d)"
    and "\<And>n. n \<in> set (map fst d) \<Longrightarrow> HasPrefix n outFileName
           \<Longrightarrow> segment_number n \<le> lastSegmentIndex db"
  shows "db_inv (db, d)"
  using assms by (simp add: db_inv_def db_open_def)

lemma db_inv_fresh:
  assumes "db_inv (db, d)"
  shows "outFileName @ format_int (lastSegmentIndex db + 1) \<notin> set (map fst d)"
    and "map_of d (outFileName @ format_int (lastSegmentIndex db + 1)) = None"
proof -
  let ?n = "outFileName @ format_int (lastSegmentIndex db + 1)"
  show n: "?n \<notin> set (map fst d)"
  proof
    assume "?n \<in> set (map fst d)"
    from db_invD(5)[OF assms this HasPrefix_append] show False by simp
  qed
  thus "map_of d ?n = None" by (simp add: map_of_eq_None_iff)
qed

lemma Put_db_inv:
  assumes "db_inv (db, d)" and "Put k v (db, d) = (r, st')"
  shows "r = None \<and> db_inv st'"
proof -
  let ?f = "filePath (last (segments db))"
  let ?n = "outFileName @ format_int (lastSegmentIndex db + 1)"
  note i = db_invD[OF assms(1)]
  note fr = db_inv_fresh[OF assms(1)]
  from Put_open_step[OF i(1) fr(2), of k v] obtain c where c: "map_of d ?f = Some c"
    and roll: "segmentSize db < int (length c) + int (length k + length v + 52) \<longrightarrow>
         Put k v (db, d) =
           (None, (db\<lparr>lastSegmentIndex := lastSegmentIndex db + 1, out := Some ?n,
                      segments := segments db @ [\<lparr>index = [k \<mapsto> 0], filePath = ?n\<rparr>]\<rparr>,
                   d @ [(?n, frame k v (calculateHash v))]))"
    and app: "int (length c) + int (length k + length v + 52) \<le> segmentSize db \<longrightarrow>
         Put k v (db, d) =
           (None, (db\<lparr>segments := butlast (segments db)
                      @ [(last (segments db))\<lparr>index := (index (last (segments db)))(k \<mapsto> int (length c))\<rparr>]\<rparr>,
                   AList.update ?f (c @ frame k v (calculateHash v)) d))"
    by blast
  show ?thesis
  proof (cases "segmentSize db < int (length c) + int (length k + length v + 52)")
    case True
    let ?db' = "db\<lparr>lastSegmentIndex := lastSegmentIndex db + 1, out := Some ?n,
                      segments := segments db @ [\<lparr>index = [k \<mapsto> 0], filePath = ?n\<rparr>]\<rparr>"
    let ?d' = "d @ [(?n, frame k v (calculateHash v))]"
    have "db_inv (?db', ?d')"
    proof (rule db_invI)
      show "segments ?db' \<noteq> []" by simp
      show "out ?db' = Some (filePath (last (segments ?db')))" by simp
      show "map_of ?d' (filePath (last (segments ?db'))) = Some (frame k v (calculateHash v))"
        using fr(2) by (simp add: map_add_def)
      show "distinct (map filePath (segments ?db'))" using i(2,4) fr(1) by auto
      show "distinct (map fst ?d')" using i(3) fr(1) by simp
      show "set (map filePath (segments ?db')) \<subseteq> set (map fst ?d')" using i(4) by auto
      fix n assume n: "n \<in> set (map fst ?d')" and p: "HasPrefix n outFileName"
      show "segment_number n \<le> lastSegmentIndex ?db'"
      proof (cases "n = ?n")
        case True
        thus ?thesis by simp
      next
        case False
        with n have "n \<in> set (map fst d)" by simp
        from i(5)[OF this p] show ?thesis by simp
      qed
    qed
    with roll[THEN mp, OF True] assms(2) show ?thesis by simp
  next
    case False
    hence le: "int (length c) + int (length k + length v + 52) \<le> segmentSize db" by simp
    have p: "?f \<in> fst ` set d" using c by (rule map_of_SomeD[THEN imageI[where f = fst], simplified])
    let ?segs' = "butlast (segments db)
                      @ [(last (segments db))\<lparr>index := (index (last (segments db)))(k \<mapsto> int (length c))\<rparr>]"
    let ?db' = "db\<lparr>segments := ?segs'\<rparr>"
    let ?d' = "AList.update ?f (c @ frame k v (calculateHash v)) d"
    have nm: "map fst ?d' = map fst d" using p by (simp add: update_keys)
    have pths: "map filePath (segments ?db') = map filePath (segments db)"
      using map_filePath_set_last[OF i(6)] by simp
    have lf: "filePath (last (segments ?db')) = ?f" by simp
    have "db_inv (?db', ?d')"
    proof (rule db_invI)
      show "segments ?db' \<noteq> []" by simp
      show "out ?db' = Some (filePath (last (segments ?db')))" using i(7) by simp
      show "map_of ?d' (filePath (last (segments ?db'))) = Some (c @ frame k v (calculateHash v))"
        unfolding lf by (simp add: update_conv')
      show "distinct (map filePath (segments ?db'))" unfolding pths by (rule i(2))
      show "distinct (map fst ?d')" unfolding nm by (rule i(3))
      show "set (map filePath (segments ?db')) \<subseteq> set (map fst ?d')"
        unfolding pths nm by (rule i(4))
      fix n assume "n \<in> set (map fst ?d')" and "HasPrefix n outFileName"
      thus "segment_number n \<le> lastSegmentIndex ?db'" unfolding nm using i(5) by simp
    qed
    with app[THEN mp, OF le] assms(2) show ?thesis by simp
  qed
qed

lemma compact_write_files:
  assumes "compact_write ks keep p (dc, idx, off) = Inr (dc', idx', off')"
  shows "map fst dc' = map fst dc \<and> (\<forall>q. q \<noteq> p \<longrightarrow> map_of dc' q = map_of dc q)
          \<and> (map_of dc p \<noteq> None \<longrightarrow> map_of dc' p \<noteq> None)"
  using assms
proof (induction ks arbitrary: dc idx off)
  case Nil
  thus ?case by simp
next
  case (Cons k ks)
  show ?case
  proof (cases "keep k")
    case None
    with Cons.prems have "compact_write ks keep p (dc, idx, off) = Inr (dc', idx', off')" by simp
    from Cons.IH[OF this] show ?thesis .
  next
    case (Some kp)
    show ?thesis
    proof (cases "getFromSegment (segment kp) (position kp) dc")
      case (Inl e)
      with Some Cons.prems have "compact_write ks keep p (dc, idx, off) = Inr (dc', idx', off')"
        by (simp split: if_splits)
      from Cons.IH[OF this] show ?thesis .
    next
      case (Inr entry)
      let ?enc = "fst (Encode (entry\<lparr>key := k\<rparr>))"
      from Some Inr Cons.prems
      have "compact_write ks keep p (Write p ?enc dc, idx(k \<mapsto> off), off + int (length ?enc))
              = Inr (dc', idx', off')"
        by (simp add: Let_def)
      from Cons.IH[OF this] show ?thesis
        by (auto simp add: names_Write map_of_Write split: option.splits)
    qed
  qed
qed

lemma Compact_db_inv:
  assumes "db_inv (db, d)" and "Compact ord (db, d) = (None, st')"
  shows "db_inv st'"
proof (cases "length (segments db) < 2")
  case True
  with assms show ?thesis by (simp add: Compact_def)
next
  case False
  let ?n = "outFileName @ format_int (lastSegmentIndex db + 1)"
  let ?sealed = "butlast (segments db)"
  let ?act = "last (segments db)"
  let ?d1 = "OpenFile_create ?n d"
  let ?keep = "keysToKeep_of (rev ?sealed) Map.empty"
  note i = db_invD[OF assms(1)]
  note fr = db_inv_fresh[OF assms(1)]
  from False assms(2) obtain d2 newIndex off where
    w: "compact_write ord ?keep ?n (?d1, Map.empty, 0) = Inr (d2, newIndex, off)"
    and st': "st' = (db\<lparr>lastSegmentIndex := lastSegmentIndex db + 1,
                      segments := [\<lparr>index = newIndex, filePath = ?n\<rparr>, ?act]\<rparr>,
                  fold Remove (map filePath ?sealed) d2)"
    by (auto simp add: Compact_def Let_def generateNewFileName_def split: sum.splits)
  let ?db' = "db\<lparr>lastSegmentIndex := lastSegmentIndex db + 1,
                      segments := [\<lparr>index = newIndex, filePath = ?n\<rparr>, ?act]\<rparr>"
  let ?d3 = "fold Remove (map filePath ?sealed) d2"
  note cw = compact_write_files[OF w]
  have n1: "map fst ?d1 = map fst d @ [?n]" using fr(1) by (simp add: names_OpenFile_create)
  have n3: "map fst ?d3 = filter (\<lambda>n. n \<notin> set (map filePath ?sealed)) (map fst d @ [?n])"
    unfolding names_fold_Remove using cw n1 by simp
  have segs: "segments db = ?sealed @ [?act]" using i(6) by simp
  hence paths: "map filePath (segments db) = map filePath ?sealed @ [filePath ?act]"
    by (metis list.simps(8,9) map_append)
  have act_nin: "filePath ?act \<notin> set (map filePath ?sealed)"
    using i(2) unfolding paths by simp
  have act_in: "filePath ?act \<in> set (map fst d)" using i(4) unfolding paths by simp
  have sealed_sub: "set (map filePath ?sealed) \<subseteq> set (map fst d)" using i(4) unfolding paths by simp
  have new_nin: "?n \<notin> set (map filePath ?sealed)" using sealed_sub fr(1) by (metis subsetD)
  have ne: "filePath ?act \<noteq> ?n" using act_in fr(1) by metis
  from i(1) obtain c where c: "map_of d (filePath ?act) = Some c" by (auto simp add: db_open_def)
  have "map_of ?d3 (filePath ?act) = map_of d2 (filePath ?act)"
    using act_nin by (simp add: map_of_fold_Remove)
  also have "\<dots> = map_of ?d1 (filePath ?act)" using cw ne by simp
  also have "\<dots> = Some c" using c ne by (simp add: map_of_OpenFile_create)
  finally have c3: "map_of ?d3 (filePath ?act) = Some c" .
  have "db_inv (?db', ?d3)"
  proof (rule db_invI)
    show "segments ?db' \<noteq> []" by simp
    show "out ?db' = Some (filePath (last (segments ?db')))" using i(7) by simp
    show "map_of ?d3 (filePath (last (segments ?db'))) = Some c" using c3 by simp
    show "distinct (map filePath (segments ?db'))" using ne by simp
    show "distinct (map fst ?d3)" unfolding n3 using i(3) fr(1) by simp
    show "set (map filePath (segments ?db')) \<subseteq> set (map fst ?d3)"
      unfolding n3 using act_in act_nin new_nin by simp
    fix n assume n: "n \<in> set (map fst ?d3)" and p: "HasPrefix n outFileName"
    show "segment_number n \<le> lastSegmentIndex ?db'"
    proof (cases "n = ?n")
      case True
      thus ?thesis by simp
    next
      case False
      with n have "n \<in> set (map fst d)" unfolding n3 by (auto split: if_splits)
      from i(5)[OF this p] show ?thesis by simp
    qed
  qed
  with st' show ?thesis by simp
qed

lemma recoverSegment_path:
  "recoverSegment s d = Some (err, seg) \<Longrightarrow> filePath seg = filePath s"
  by (auto simp add: recoverSegment_def split: option.splits)

lemma recoverAll_files_result:
  assumes "recoverAll_files names (db, d) = Some (None, db')"
  shows "map filePath (segments db') = map filePath (segments db) @ names
    \<and> lastSegmentIndex db \<le> lastSegmentIndex db'
    \<and> (\<forall>n \<in> set names. segment_number n \<le> lastSegmentIndex db')"
  using assms
proof (induction names arbitrary: db)
  case Nil
  thus ?case by simp
next
  case (Cons fileName rest)
  let ?s = "\<lparr>index = Map.empty, filePath = fileName\<rparr>"
  from Cons.prems obtain err seg where rs: "recoverSegment ?s d = Some (err, seg)"
    by (cases "recoverSegment ?s d") auto
  from recoverSegment_path[OF rs] have fp: "filePath seg = fileName" by simp
  let ?db1 = "db\<lparr>segments := segments db @ [seg]\<rparr>"
  let ?db2 = "if segment_number fileName > lastSegmentIndex ?db1
              then ?db1\<lparr>lastSegmentIndex := segment_number fileName\<rparr> else ?db1"
  from Cons.prems rs have rest: "recoverAll_files rest (?db2, d) = Some (None, db')"
    by (simp add: Let_def split: if_splits)
  from Cons.IH[OF rest] fp show ?case by (auto split: if_splits)
qed

lemma NewDb_db_inv:
  assumes "distinct (map fst d)" and "NewDb d sz = Some (Inr st)"
  shows "db_inv st"
proof -
  let ?db0 = "\<lparr>out = None, segmentSize = sz, lastSegmentIndex = - 1, segments = []\<rparr>"
  let ?names = "sort_key segment_number (filter (\<lambda>name. HasPrefix name outFileName) (map fst d))"
  from assms(2) obtain db1 where ra: "recoverAll (?db0, d) = Some (None, db1)"
    by (auto simp add: NewDb_def split: option.splits prod.splits)
  hence "recoverAll_files ?names (?db0, d) = Some (None, db1)"
    by (simp add: recoverAll_def ReadDir_def)
  from recoverAll_files_result[OF this]
  have paths: "map filePath (segments db1) = ?names"
    and lo: "- 1 \<le> lastSegmentIndex db1"
    and nums: "\<forall>n \<in> set ?names. segment_number n \<le> lastSegmentIndex db1"
    by simp_all
  have dn: "distinct ?names" using assms(1) by simp
  have sn: "set ?names = {n \<in> set (map fst d). HasPrefix n outFileName}" by auto
  show ?thesis
  proof (cases "segments db1 = []")
    case True
    with paths have none: "\<And>n. n \<in> set (map fst d) \<Longrightarrow> \<not> HasPrefix n outFileName"
      using sn by (metis (mono_tags, lifting) empty_iff list.map_disc_iff mem_Collect_eq set_empty)
    let ?n = "outFileName @ format_int (lastSegmentIndex db1 + 1)"
    have nin: "?n \<notin> set (map fst d)" using none[of ?n] by auto
    hence m: "map_of d ?n = None" by (simp add: map_of_eq_None_iff)
    let ?db' = "db1\<lparr>lastSegmentIndex := lastSegmentIndex db1 + 1, out := Some ?n,
                   segments := [\<lparr>index = Map.empty, filePath = ?n\<rparr>]\<rparr>"
    from assms(2) ra True m have st: "st = (?db', d @ [(?n, [])])"
      by (simp add: NewDb_def createSegment_def generateNewFileName_def OpenFile_create_def Let_def)
    have "db_inv (?db', d @ [(?n, [])])"
    proof (rule db_invI)
      show "segments ?db' \<noteq> []" by simp
      show "out ?db' = Some (filePath (last (segments ?db')))" by simp
      show "map_of (d @ [(?n, [])]) (filePath (last (segments ?db'))) = Some []"
        using m by (simp add: map_add_def)
      show "distinct (map filePath (segments ?db'))" by simp
      show "distinct (map fst (d @ [(?n, [])]))" using assms(1) nin by simp
      show "set (map filePath (segments ?db')) \<subseteq> set (map fst (d @ [(?n, [])]))" by simp
      fix n assume n: "n \<in> set (map fst (d @ [(?n, [])]))" and p: "HasPrefix n outFileName"
      from n p none have "n = ?n" by auto
      thus "segment_number n \<le> lastSegmentIndex ?db'" by simp
    qed
    with st show ?thesis by simp
  next
    case False
    let ?f = "filePath (last (segments db1))"
    from assms(2) ra False obtain c where c: "map_of d ?f = Some c"
      and st: "st = (db1\<lparr>out := Some ?f\<rparr>, d)"
      by (auto simp add: NewDb_def getLastSegment_def split: option.splits)
    have "db_inv (db1\<lparr>out := Some ?f\<rparr>, d)"
    proof (rule db_invI)
      show "segments (db1\<lparr>out := Some ?f\<rparr>) \<noteq> []" using False by simp
      show "out (db1\<lparr>out := Some ?f\<rparr>) = Some (filePath (last (segments (db1\<lparr>out := Some ?f\<rparr>))))"
        by simp
      show "map_of d (filePath (last (segments (db1\<lparr>out := Some ?f\<rparr>)))) = Some c" using c by simp
      show "distinct (map filePath (segments (db1\<lparr>out := Some ?f\<rparr>)))" using paths dn by simp
      show "distinct (map fst d)" by (rule assms(1))
      show "set (map filePath (segments (db1\<lparr>out := Some ?f\<rparr>))) \<subseteq> set (map fst d)"
        using paths sn by auto
      fix n assume "n \<in> set (map fst d)" and "HasPrefix n outFileName"
      hence "n \<in> set ?names" using sn by simp
      with nums show "segment_number n \<le> lastSegmentIndex (db1\<lparr>out := Some ?f\<rparr>)" by simp
    qed
    with st show ?thesis by simp
  qed
qed

lemma reachable_db_inv: "reachable st \<Longrightarrow> db_inv st"
proof (induction rule: reachable.induct)
  case (opened sz st)
  show ?case by (rule NewDb_db_inv[OF _ opened]) simp
next
  case (put st k v r st')
  obtain db d where st: "st = (db, d)" by (cases st)
  from Put_db_inv[of db d k v r st'] put st show ?case by simp
next
  case (compacted st order st')
  obtain db d where st: "st = (db, d)" by (cases st)
  from Compact_db_inv[of db d order st'] compacted st show ?case by simp
next
  case (reopened st sz st')
  obtain db d where st: "st = (db, d)" by (cases st)
  with reopened have "db_inv (db, d)" by simp
  from db_invD(3)[OF this] have "distinct (map fst (Close st))" by (simp add: Close_def st)
  from NewDb_db_inv[OF this reopened(2)] show ?case .
qed

lemma puts_db_inv:
  assumes "db_inv (db, d)" and "puts kvs (db, d) = (r, (db', d'))"
  shows "r = None \<and> db_inv (db', d') \<and> segmentSize db' = segmentSize db
    \<and> length (segments db) \<le> length (segments db')
    \<and> (2 \<le> length (segments db') \<or>
         (file_size (filePath (last (segments db'))) d'
            = file_size (filePath (last (segments db))) d + total_length kvs
          \<and> (kvs \<noteq> [] \<longrightarrow>
               int (file_size (filePath (last (segments db))) d + total_length kvs)
                 \<le> segmentSize db)))"
  using assms
proof (induction kvs arbitrary: db d)
  case Nil
  thus ?case by (simp add: total_length_def)
next
  case (Cons kv kvs)
  obtain k v where kv: "kv = (k, v)" by (cases kv)
  let ?f = "filePath (last (segments db))"
  let ?n = "outFileName @ format_int (lastSegmentIndex db + 1)"
  let ?L = "length k + length v + 52"
  note i = db_invD[OF Cons.prems(1)]
  note fr = db_inv_fresh[OF Cons.prems(1)]
  from Put_open_step[OF i(1) fr(2), of k v] obtain c where c: "map_of d ?f = Some c"
    and roll: "segmentSize db < int (length c) + int ?L \<longrightarrow>
         Put k v (db, d) =
           (None, (db\<lparr>lastSegmentIndex := lastSegmentIndex db + 1, out := Some ?n,
                      segments := segments db @ [\<lparr>index = [k \<mapsto> 0], filePath = ?n\<rparr>]\<rparr>,
                   d @ [(?n, frame k v (calculateHash v))]))"
    and app: "int (length c) + int ?L \<le> segmentSize db \<longrightarrow>
         Put k v (db, d) =
           (None, (db\<lparr>segments := butlast (segments db)
                      @ [(last (segments db))\<lparr>index := (index (last (segments db)))(k \<mapsto> int (length c))\<rparr>]\<rparr>,
                   AList.update ?f (c @ frame k v (calculateHash v)) d))"
    by blast
  obtain r1 db1 d1 where p: "Put k v (db, d) = (r1, (db1, d1))" by (metis surj_pair)
  from Put_db_inv[OF Cons.prems(1) p] have r1: "r1 = None" and i1: "db_inv (db1, d1)" by simp_all
  from Cons.prems(2) p r1 kv have rest: "puts kvs (db1, d1) = (r, (db', d'))" by simp
  note IH = Cons.IH[OF i1 rest]
  have tl: "total_length (kv # kvs) = ?L + total_length kvs"
    by (simp add: total_length_def kv)
  have fs: "file_size ?f d = length c" using c by (simp add: file_size_def)
  show ?case
  proof (cases "segmentSize db < int (length c) + int ?L")
    case True
    from roll[THEN mp, OF True] p
    have s1: "segments db1 = segments db @ [\<lparr>index = [k \<mapsto> 0], filePath = ?n\<rparr>]"
      and z1: "segmentSize db1 = segmentSize db" by auto
    from s1 i(6) have "2 \<le> length (segments db1)" by (cases "segments db") simp_all
    with IH s1 z1 show ?thesis by simp
  next
    case False
    hence le: "int (length c) + int ?L \<le> segmentSize db" by simp
    from app[THEN mp, OF le] p have db1: "db1 = db\<lparr>segments := butlast (segments db)
                      @ [(last (segments db))\<lparr>index := (index (last (segments db)))(k \<mapsto> int (length c))\<rparr>]\<rparr>"
      and d1: "d1 = AList.update ?f (c @ frame k v (calculateHash v)) d" by auto
    have z1: "segmentSize db1 = segmentSize db" using db1 by simp
    have l1: "length (segments db1) = length (segments db)" using db1 i(6) by simp
    have f1: "file_size (filePath (last (segments db1))) d1 = length c + ?L"
      using db1 d1 by (simp add: file_size_def update_conv')
    show ?thesis
    proof (cases "kvs = []")
      case True
      hence "total_length kvs = 0" by (simp add: total_length_def)
      with IH z1 l1 f1 fs le tl show ?thesis by auto
    next
      case False
      with IH z1 l1 f1 fs tl show ?thesis by (auto simp add: add.assoc)
    qed
  qed
qed

lemma db_inv_file_count:
  assumes "db_inv (db, d)"
  shows "length (segments db) \<le> length d"
proof -
  note i = db_invD[OF assms]
  have "length (segments db) = card (set (map filePath (segments db)))"
    using distinct_card[OF i(2)] by simp
  also have "\<dots> \<le> card (set (map fst d))" using i(4) by (simp add: card_mono)
  also have "\<dots> \<le> length d" using card_length[of "map fst d"] by simp
  finally show ?thesis .
qed

subsection \<open>Segment rollover\<close>

text \<open>
  C7. In every reachable state \<open>(db, d)\<close> (a database opened on an empty directory, then
  any puts, compactions and reopenings), with \<open>c\<close> the content of the active file and
  \<open>encoded\<close> the frame of the record to put: if \<open>length c + length encoded\<close> is strictly
  greater than \<open>segmentSize\<close>, the put first creates the file
  \<open>current-data<lastSegmentIndex + 1>\<close> (a name not in use), makes it the append target
  and the last segment of the roster, and writes the record there at offset 0; otherwise
  (a record exactly filling the budget included) it appends the record to the active file
  and the roster keeps its length. Consequently, every sequence of puts whose frames,
  added to the size of the active file, exceed \<open>segmentSize\<close> is acknowledged and leaves
  more than one file in the directory.
\<close>

theorem rollover_before_write:
  assumes "reachable (db, d)"
    and "encoded = fst (Encode \<lparr>key = k, val = v, hash = calculateHash v\<rparr>)"
    and "newPath = outFileName @ format_int (lastSegmentIndex db + 1)"
  shows "\<exists>c. out db = Some (filePath (last (segments db)))
      \<and> map_of d (filePath (last (segments db))) = Some c
      \<and> (segmentSize db < int (length c) + int (length encoded) \<longrightarrow>
           map_of d newPath = None
           \<and> Put k v (db, d) =
               (None, (db\<lparr>lastSegmentIndex := lastSegmentIndex db + 1, out := Some newPath,
                          segments := segments db @ [\<lparr>index = [k \<mapsto> 0], filePath = newPath\<rparr>]\<rparr>,
                       d @ [(newPath, encoded)])))
      \<and> (int (length c) + int (length encoded) \<le> segmentSize db \<longrightarrow>
           Put k v (db, d) =
               (None, (db\<lparr>segments := butlast (segments db)
                          @ [(last (segments db))\<lparr>index :=
                               (index (last (segments db)))(k \<mapsto> int (length c))\<rparr>]\<rparr>,
                       AList.update (filePath (last (segments db))) (c @ encoded) d)))
      \<and> (kvs \<noteq> [] \<and> segmentSize db < int (length c) + int (total_length kvs) \<longrightarrow>
           (\<exists>db' d'. puts kvs (db, d) = (None, (db', d')) \<and> 1 < length d'))"
proof -
  from reachable_db_inv[OF assms(1)] have inv: "db_inv (db, d)" .
  note i = db_invD[OF inv]
  note fr = db_inv_fresh[OF inv]
  have enc: "encoded = frame k v (calculateHash v)" using assms(2) by (simp add: Encode_frame)
  from Put_open_step[OF i(1) fr(2), of k v] obtain c
    where c: "map_of d (filePath (last (segments db))) = Some c"
    and roll: "segmentSize db < int (length c) + int (length k + length v + 52) \<longrightarrow>
         Put k v (db, d) =
           (None, (db\<lparr>lastSegmentIndex := lastSegmentIndex db + 1,
                      out := Some (outFileName @ format_int (lastSegmentIndex db + 1)),
                      segments := segments db @ [\<lparr>index = [k \<mapsto> 0],
                         filePath = outFileName @ format_int (lastSegmentIndex db + 1)\<rparr>]\<rparr>,
                   d @ [(outFileName @ format_int (lastSegmentIndex db + 1),
                         frame k v (calculateHash v))]))"
    and app: "int (length c) + int (length k + length v + 52) \<le> segmentSize db \<longrightarrow>
         Put k v (db, d) =
           (None, (db\<lparr>segments := butlast (segments db)
                      @ [(last (segments db))\<lparr>index := (index (last (segments db)))(k \<mapsto> int (length c))\<rparr>]\<rparr>,
                   AList.update (filePath (last (segments db))) (c @ frame k v (calculateHash v)) d))"
    by blast
  have fs: "file_size (filePath (last (segments db))) d = length c"
    using c by (simp add: file_size_def)
  have cnt: "kvs \<noteq> [] \<and> segmentSize db < int (length c) + int (total_length kvs) \<longrightarrow>
           (\<exists>db' d'. puts kvs (db, d) = (None, (db', d')) \<and> 1 < length d')"
  proof
    assume a: "kvs \<noteq> [] \<and> segmentSize db < int (length c) + int (total_length kvs)"
    obtain r db' d' where p: "puts kvs (db, d) = (r, (db', d'))" by (metis surj_pair)
    from puts_db_inv[OF inv p] a fs have r: "r = None" and inv': "db_inv (db', d')"
      and two: "2 \<le> length (segments db')" by auto
    from db_inv_file_count[OF inv'] two have "1 < length d'" by simp
    with p r show "\<exists>db' d'. puts kvs (db, d) = (None, (db', d')) \<and> 1 < length d'" by simp
  qed
  from c i(7) roll app fr(2) cnt show ?thesis
    unfolding enc assms(3) by simp
qed

theorem rollover_before_write_witness:
  "reachable (\<lparr>out = Some ''current-data0'', segmentSize = 100, lastSegmentIndex = 0,
        segments = [\<lparr>index = Map.empty, filePath = ''current-data0''\<rparr>]\<rparr>,
      [(''current-data0'', [])])
   \<and> Put ''test-key2'' ''test-value''
       (\<lparr>out = Some ''current-data0'', segmentSize = 100, lastSegmentIndex = 0,
          segments = [\<lparr>index = Map.empty, filePath = ''current-data0''\<rparr>]\<rparr>,
        [(''current-data0'', [])])
     = (None,
        (\<lparr>out = Some ''current-data0'', segmentSize = 100, lastSegmentIndex = 0,
          segments = [\<lparr>index = [''test-key2'' \<mapsto> 0], filePath = ''current-data0''\<rparr>]\<rparr>,
         [(''current-data0'',
           fst (Encode \<lparr>key = ''test-key2'', val = ''test-value'',
                        hash = calculateHash ''test-value''\<rparr>))]))
   \<and> (\<exists>db' d'. puts [(''test-key0'', ''test-value''), (''test-key1'', ''test-value'')]
         (\<lparr>out = Some ''current-data0'', segmentSize = 100, lastSegmentIndex = 0,
            segments = [\<lparr>index = Map.empty, filePath = ''current-data0''\<rparr>]\<rparr>,
          [(''current-data0'', [])]) = (None, (db', d'))
        \<and> 1 < length d')"
proof -
  let ?db = "\<lparr>out = Some ''current-data0'', segmentSize = 100, lastSegmentIndex = 0,
        segments = [\<lparr>index = Map.empty, filePath = ''current-data0''\<rparr>]\<rparr>"
  let ?d = "[(''current-data0'', [] :: bytes)]"
  let ?enc = "fst (Encode \<lparr>key = ''test-key2'', val = ''test-value'',
                        hash = calculateHash ''test-value''\<rparr>)"
  let ?kvs = "[(''test-key0'', ''test-value''), (''test-key1'', ''test-value'')]"
  have re: "reachable (?db, ?d)" by (rule reachable.opened[OF NewDb_empty])
  have len: "length ?enc = 71" by (simp add: Encode_frame)
  have t: "?kvs \<noteq> [] \<and> segmentSize ?db < int (length ([] :: bytes)) + int (total_length ?kvs)"
    by (simp add: total_length_def)
  from rollover_before_write[OF re refl refl, of "''test-key2''" "''test-value''" ?kvs]
  obtain c where c: "map_of ?d (filePath (last (segments ?db))) = Some c"
    and app: "int (length c) + int (length ?enc) \<le> segmentSize ?db \<longrightarrow>
           Put ''test-key2'' ''test-value'' (?db, ?d) =
               (None, (?db\<lparr>segments := butlast (segments ?db)
                          @ [(last (segments ?db))\<lparr>index :=
                               (index (last (segments ?db)))(''test-key2'' \<mapsto> int (length c))\<rparr>]\<rparr>,
                       AList.update (filePath (last (segments ?db))) (c @ ?enc) ?d))"
    and cnt: "?kvs \<noteq> [] \<and> segmentSize ?db < int (length c) + int (total_length ?kvs) \<longrightarrow>
           (\<exists>db' d'. puts ?kvs (?db, ?d) = (None, (db', d')) \<and> 1 < length d')"
    by blast
  from c have c0: "c = []" by simp
  from app len have "Put ''test-key2'' ''test-value'' (?db, ?d) =
      (None, (?db\<lparr>segments := [\<lparr>index = [''test-key2'' \<mapsto> 0], filePath = ''current-data0''\<rparr>]\<rparr>,
              [(''current-data0'', ?enc)]))"
    unfolding c0 by simp
  moreover from cnt t have "\<exists>db' d'. puts ?kvs (?db, ?d) = (None, (db', d')) \<and> 1 < length d'"
    unfolding c0 by blast
  ultimately show ?thesis using re by simp
qed

end
